theory Spec2Isabelle
  imports Complex_Main
begin

section \<open>Data model of \<^verbatim>\<open>hybrid_aligner.py\<close>\<close>

text \<open>
  A rect is the Python list \<^verbatim>\<open>[nx0, ny0, nx1, ny1]\<close>; the source reads it by the
  indices 0..3, here the four selectors. A Python float is modelled by the real number it
  denotes. Comparisons, \<^verbatim>\<open>min\<close> and \<^verbatim>\<open>max\<close> are exact on floats; the
  arithmetic of \<^verbatim>\<open>align_text\<close> (\<^verbatim>\<open>+\<close>, \<^verbatim>\<open>-\<close>, \<^verbatim>\<open>*\<close>,
  \<^verbatim>\<open>/\<close>, float literals, the conversion of an integer) rounds its exact result to
  the nearest double, as IEEE 754 does (section on floating-point arithmetic below). NaN,
  infinities and overflow are not modelled.

  A Python \<^verbatim>\<open>str\<close> is modelled as a \<^typ>\<open>string\<close> whose characters are read as
  the code points 0..255.
\<close>

datatype rect = Rect (rx0: real) (ry0: real) (rx1: real) (ry1: real)

type_synonym box = "rect \<times> string"

text \<open>The argument \<^verbatim>\<open>llm_text\<close>: \<^verbatim>\<open>None\<close>, a string, or a list of line strings.\<close>

datatype llm_text = NoText | Str string | Lines "string list"

text \<open>
  An entry of \<^verbatim>\<open>matches\<close>. The source builds two shapes of dict: an accepted
  anchor with the keys \<^verbatim>\<open>box_idx\<close>, \<^verbatim>\<open>llm_idx\<close>, \<^verbatim>\<open>text\<close>,
  \<^verbatim>\<open>rect\<close> (and the constant \<^verbatim>\<open>type\<close>, never read), and the closing
  sentinel, whose \<^verbatim>\<open>text\<close> and \<^verbatim>\<open>rect\<close> are \<^verbatim>\<open>None\<close>.
\<close>

datatype anchor =
  Anchor (box_idx: int) (llm_idx: int) (anchor_text: string) (anchor_rect: rect)
| Sentinel (box_idx: int) (llm_idx: int)


section \<open>Python built-ins used by the source\<close>

text \<open>\<^verbatim>\<open>str.isspace\<close> on the code points below 256.\<close>

definition is_space :: "char \<Rightarrow> bool" where
  "is_space c = (of_char c \<in> {9, 10, 11, 12, 13, 28, 29, 30, 31, 32, 133, 160 :: nat})"

text \<open>The characters of \<^verbatim>\<open>string.punctuation\<close>.\<close>

definition is_punct :: "char \<Rightarrow> bool" where
  "is_punct c = (let n = of_char c :: nat in
     (33 \<le> n \<and> n \<le> 47) \<or> (58 \<le> n \<and> n \<le> 64) \<or> (91 \<le> n \<and> n \<le> 96) \<or> (123 \<le> n \<and> n \<le> 126))"

text \<open>\<^verbatim>\<open>str.lower\<close> on the code points below 256.\<close>

definition lower_char :: "char \<Rightarrow> char" where
  "lower_char c = (let n = of_char c :: nat in
     if (65 \<le> n \<and> n \<le> 90) \<or> (192 \<le> n \<and> n \<le> 222 \<and> n \<noteq> 215) then char_of (n + 32) else c)"

definition lower :: "string \<Rightarrow> string" where
  "lower s = map lower_char s"

text \<open>\<^verbatim>\<open>str.strip()\<close>: whitespace removed at both ends.\<close>

definition strip :: "string \<Rightarrow> string" where
  "strip s = rev (dropWhile is_space (rev (dropWhile is_space s)))"

text \<open>
  \<^verbatim>\<open>str.split()\<close> without argument: the maximal runs of non-whitespace characters,
  in order. \<open>cur\<close> is the word being read.
\<close>

fun split_acc :: "string \<Rightarrow> string \<Rightarrow> string list" where
  "split_acc cur [] = (if cur = [] then [] else [cur])"
| "split_acc cur (c # cs) =
     (if is_space c then (if cur = [] then split_acc [] cs else cur # split_acc [] cs)
      else split_acc (cur @ [c]) cs)"

definition split_ws :: "string \<Rightarrow> string list" where
  "split_ws s = split_acc [] s"

text \<open>\<^verbatim>\<open>" ".join(xs)\<close>.\<close>

fun join_sp :: "string list \<Rightarrow> string" where
  "join_sp [] = []"
| "join_sp [x] = x"
| "join_sp (x # y # ys) = x @ '' '' @ join_sp (y # ys)"

text \<open>
  Python slicing \<^verbatim>\<open>xs[i:j]\<close> and \<^verbatim>\<open>xs[i:]\<close> on integer bounds: a negative
  bound counts from the end, and every bound is clamped to the list.
\<close>

definition norm_index :: "int \<Rightarrow> nat \<Rightarrow> nat" where
  "norm_index i n = (if i < 0 then nat (max 0 (int n + i)) else min (nat i) n)"

definition py_slice :: "'a list \<Rightarrow> int \<Rightarrow> int \<Rightarrow> 'a list" where
  "py_slice xs i j =
     (let a = norm_index i (length xs); b = norm_index j (length xs)
      in take (b - a) (drop a xs))"

definition py_slice_from :: "'a list \<Rightarrow> int \<Rightarrow> 'a list" where
  "py_slice_from xs i = drop (norm_index i (length xs)) xs"

text \<open>\<^verbatim>\<open>round(x)\<close> of Python 3 on a float: to the nearest integer, a tie to the even one.\<close>

definition py_round :: "real \<Rightarrow> int" where
  "py_round x =
     (let f = \<lfloor>x\<rfloor>; d = x - of_int f
      in if d < 1 / 2 then f else if 1 / 2 < d then f + 1 else if even f then f else f + 1)"

section \<open>Floating-point arithmetic\<close>

text \<open>
  Python's \<^verbatim>\<open>float\<close> is the IEEE 754 binary64 format, and every arithmetic operation
  returns the exact result rounded to the nearest double, a tie to the one with an even
  significand. \<open>binary_exponent x\<close> is the integer \<open>e\<close> with
  \<open>2^e \<le> x < 2^(e+1)\<close> for a positive \<open>x\<close>. A double with that exponent is a multiple
  of \<open>2^(e-52)\<close>, and of \<open>2^(-1074)\<close> in the subnormal range; \<open>fl\<close> rounds to the
  nearest such multiple.
\<close>

function ilog2 :: "int \<Rightarrow> int" where
  "ilog2 n = (if n < 2 then 0 else 1 + ilog2 (n div 2))"
  by pat_completeness auto
termination
  by (relation "measure nat") auto

declare ilog2.simps [simp del]

definition binary_exponent :: "real \<Rightarrow> int" where
  "binary_exponent x =
     (if 1 \<le> x then ilog2 \<lfloor>x\<rfloor>
      else - (let n = \<lceil>1 / x\<rceil> in if n \<le> 1 then 0 else 1 + ilog2 (n - 1)))"

definition round_half_even :: "real \<Rightarrow> int" where
  "round_half_even x =
     (let f = \<lfloor>x\<rfloor>; d = x - of_int f
      in if d < 1 / 2 then f else if 1 / 2 < d then f + 1 else if even f then f else f + 1)"

definition fl :: "real \<Rightarrow> real" where
  "fl x =
     (if x = 0 then 0
      else
        let e = binary_exponent \<bar>x\<bar>;
            q = max (e - 52) (- 1074)
        in of_int (round_half_even (x / 2 powi q)) * 2 powi q)"

text \<open>
  The operations of the source on floats. A float literal of the source, such as
  \<^verbatim>\<open>0.98\<close>, is \<open>fl 0.98\<close>, and an integer \<open>n\<close> converted to a float is
  \<open>fl (of_int n)\<close>.
\<close>

definition fadd :: "real \<Rightarrow> real \<Rightarrow> real" where
  "fadd a b = fl (a + b)"

definition fsub :: "real \<Rightarrow> real \<Rightarrow> real" where
  "fsub a b = fl (a - b)"

definition fmul :: "real \<Rightarrow> real \<Rightarrow> real" where
  "fmul a b = fl (a * b)"

definition fdiv :: "real \<Rightarrow> real \<Rightarrow> real" where
  "fdiv a b = fl (a / b)"

section \<open>\<^verbatim>\<open>HybridAligner._clean_text\<close>\<close>

definition clean_text :: "string \<Rightarrow> string" where
  "clean_text t = filter (\<lambda>c. \<not> is_punct c) (strip (lower t))"

text \<open>\<^verbatim>\<open>min(xs)\<close> and \<^verbatim>\<open>max(xs)\<close> of a non-empty list.\<close>

fun py_min :: "real list \<Rightarrow> real" where
  "py_min (x # xs) = fold min xs x"

fun py_max :: "real list \<Rightarrow> real" where
  "py_max (x # xs) = fold max xs x"

text \<open>The truth value of \<^verbatim>\<open>llm_text\<close> and the joined content string.\<close>

fun truthy :: "llm_text \<Rightarrow> bool" where
  "truthy NoText = False"
| "truthy (Str s) = (s \<noteq> [])"
| "truthy (Lines ls) = (ls \<noteq> [])"

fun full_llm_text :: "llm_text \<Rightarrow> string" where
  "full_llm_text (Lines ls) = join_sp ls"
| "full_llm_text (Str s) = s"
| "full_llm_text NoText = []"

section \<open>The fuzzy matcher of the rapidfuzz library\<close>

text \<open>
  Modelled from the spec: \<^verbatim>\<open>process.extractOne(query, choices, scorer=...)\<close> of the
  rapidfuzz library, which is not part of the sources. It scores every choice and returns
  the choice with the maximum score together with that score and its index, the first
  one on a tie, and \<^verbatim>\<open>None\<close> when there is no choice. The scorer itself
  (\<^verbatim>\<open>fuzz.ratio\<close>) is a parameter of the model.
\<close>

type_synonym scorer = "string \<Rightarrow> string \<Rightarrow> real"

fun extract_loop ::
  "scorer \<Rightarrow> string \<Rightarrow> nat \<Rightarrow> string list \<Rightarrow> (string \<times> real \<times> nat) option
     \<Rightarrow> (string \<times> real \<times> nat) option" where
  "extract_loop scorer query i [] res = res"
| "extract_loop scorer query i (c # cs) res =
     (let score = scorer query c
      in extract_loop scorer query (Suc i) cs
           (case res of
              None \<Rightarrow> Some (c, score, i)
            | Some (_, best, _) \<Rightarrow> if best < score then Some (c, score, i) else res))"

definition extractOne :: "scorer \<Rightarrow> string \<Rightarrow> string list \<Rightarrow> (string \<times> real \<times> nat) option" where
  "extractOne scorer query choices = extract_loop scorer query 0 choices None"

text \<open>
  Modelled from the spec: \<^verbatim>\<open>fuzz.ratio\<close> of the rapidfuzz library, a similarity
  between 0 and 100 based on edit distance. It is the normalised insertion/deletion
  similarity \<open>100 * 2 * lcs / (len a + len b)\<close>, which gives the spec's "Helo" against
  "Hello" about 89. It is used for the concrete runs only; every general theorem holds
  for any scorer.
\<close>

fun lcs_len :: "string \<Rightarrow> string \<Rightarrow> nat" where
  "lcs_len [] ys = 0"
| "lcs_len (x # xs) [] = 0"
| "lcs_len (x # xs) (y # ys) =
     (if x = y then Suc (lcs_len xs ys) else max (lcs_len (x # xs) ys) (lcs_len xs (y # ys)))"

definition fuzz_ratio :: scorer where
  "fuzz_ratio a b =
     (if a = [] \<and> b = [] then 100
      else 100 * (2 * real (lcs_len a b)) / real (length a + length b))"

section \<open>\<^verbatim>\<open>HybridAligner.get_structured_text\<close>\<close>




section \<open>\<^verbatim>\<open>HybridAligner.align_text\<close>\<close>

subsection \<open>Step 1: the anchors\<close>

definition window_size :: int where
  "window_size = 100"

text \<open>
  The body of the loop over \<^verbatim>\<open>enumerate(structured_data)\<close>, on the state
  \<^verbatim>\<open>(matches, llm_search_idx)\<close>; \<open>bidx\<close> is the loop's \<^verbatim>\<open>box_idx\<close>.
\<close>

definition match_step ::
  "scorer \<Rightarrow> string list \<Rightarrow> anchor list \<times> int \<Rightarrow> int \<Rightarrow> box \<Rightarrow> anchor list \<times> int" where
  "match_step scorer llm_tokens st bidx b =
     (let (matches, llm_search_idx) = st;
          (rect, box_text) = b
      in
        if strip box_text = [] then st
        else
          let clean_box = clean_text box_text
          in if clean_box = [] then st
             else
               let end_idx = min (int (length llm_tokens)) (llm_search_idx + window_size);
                   candidates = py_slice llm_tokens llm_search_idx end_idx;
                   clean_candidates = map clean_text candidates
               in (case extractOne scorer clean_box clean_candidates of
                     None \<Rightarrow> st
                   | Some (best_clean_token, score, candidate_offset) \<Rightarrow>
                       if score > 80 then
                         let real_llm_idx = llm_search_idx + int candidate_offset;
                             best_token = candidates ! candidate_offset
                         in (matches @ [Anchor bidx real_llm_idx best_token rect],
                             real_llm_idx + 1)
                       else st))"

fun find_anchors_loop ::
  "scorer \<Rightarrow> string list \<Rightarrow> int \<Rightarrow> box list \<Rightarrow> anchor list \<times> int \<Rightarrow> anchor list \<times> int" where
  "find_anchors_loop scorer llm_tokens bidx [] st = st"
| "find_anchors_loop scorer llm_tokens bidx (b # bs) st =
     find_anchors_loop scorer llm_tokens (bidx + 1) bs
       (match_step scorer llm_tokens st bidx b)"

definition find_anchors :: "scorer \<Rightarrow> box list \<Rightarrow> string list \<Rightarrow> anchor list" where
  "find_anchors scorer structured_data llm_tokens =
     fst (find_anchors_loop scorer llm_tokens 0 structured_data ([], 0))"

subsection \<open>Step 2: the gaps\<close>

text \<open>The line test between the last box of the current row and the next gap box.\<close>

definition same_line :: "rect \<Rightarrow> rect \<Rightarrow> bool" where
  "same_line prev_b curr_b =
     (let y0_a = ry0 prev_b; y1_a = ry1 prev_b;
          y0_b = ry0 curr_b; y1_b = ry1 curr_b;
          inter_y0 = max y0_a y0_b;
          inter_y1 = min y1_a y1_b;
          intersection = max 0 (fsub inter_y1 inter_y0);
          min_height = min (fsub y1_a y0_a) (fsub y1_b y0_b)
      in intersection > fmul min_height (fl 0.5))"

text \<open>
  The grouping loop. In the source \<^verbatim>\<open>current_row\<close> is the last element of
  \<^verbatim>\<open>rows\<close> and is extended in place; here \<open>done_rows\<close> holds the rows before it.
\<close>

fun group_loop :: "box list list \<Rightarrow> box list \<Rightarrow> box list \<Rightarrow> box list list" where
  "group_loop done_rows current_row [] = done_rows @ [current_row]"
| "group_loop done_rows current_row (b # bs) =
     (if same_line (fst (last current_row)) (fst b)
      then group_loop done_rows (current_row @ [b]) bs
      else group_loop (done_rows @ [current_row]) [b] bs)"

definition group_rows :: "box list \<Rightarrow> box list list" where
  "group_rows gap_boxes =
     (case gap_boxes of [] \<Rightarrow> [] | b # bs \<Rightarrow> group_loop [] [b] bs)"

definition row_width :: "box list \<Rightarrow> real" where
  "row_width row =
     fsub (py_max (map (\<lambda>b. rx1 (fst b)) row)) (py_min (map (\<lambda>b. rx0 (fst b)) row))"

text \<open>\<^verbatim>\<open>total_width\<close>: it starts at 0 and every row width is added in turn.\<close>

definition total_row_width :: "real list \<Rightarrow> real" where
  "total_row_width row_widths = foldl fadd 0 row_widths"

definition union_rect :: "box list \<Rightarrow> rect" where
  "union_rect row =
     Rect (py_min (map (\<lambda>b. rx0 (fst b)) row)) (py_min (map (\<lambda>b. ry0 (fst b)) row))
          (py_max (map (\<lambda>b. rx1 (fst b)) row)) (py_max (map (\<lambda>b. ry1 (fst b)) row))"

definition newline :: char where
  "newline = CHR 0x0A"

text \<open>The wrap hint: a newline after a text of more than 50 characters.\<close>

definition wrap_hint :: "string \<Rightarrow> string" where
  "wrap_hint gap_text = (if length gap_text > 50 then gap_text @ [newline] else gap_text)"

text \<open>
  The loop over \<^verbatim>\<open>enumerate(rows)\<close> that hands each row its chunk of the gap
  tokens; \<open>n\<close> is \<^verbatim>\<open>len(rows)\<close>, \<open>i\<close> the index of the row at the head.
\<close>

fun assign_loop ::
  "string list \<Rightarrow> real \<Rightarrow> real list \<Rightarrow> nat \<Rightarrow> nat \<Rightarrow> box list list \<Rightarrow> int \<Rightarrow> box list
     \<Rightarrow> box list" where
  "assign_loop gap_tokens total_width row_widths n i [] token_start final_output = final_output"
| "assign_loop gap_tokens total_width row_widths n i (row # rest) token_start final_output =
     (let (chunk, token_start') =
            (if total_width = 0 then (gap_tokens, token_start)
             else
               let ratio = fdiv (row_widths ! i) total_width;
                   count0 = py_round (fmul (fl (real (length gap_tokens))) ratio);
                   count = (if count0 = 0 \<and> length gap_tokens > 0
                               \<and> token_start < int (length gap_tokens)
                            then 1 else count0)
               in if int i = int n - 1 then (py_slice_from gap_tokens token_start, token_start)
                  else (py_slice gap_tokens token_start (token_start + count),
                        token_start + count))
      in assign_loop gap_tokens total_width row_widths n (Suc i) rest token_start'
           (if chunk = [] then final_output
            else final_output @ [(union_rect row, wrap_hint (join_sp chunk))]))"

text \<open>The rect of a synthetic box below the last element emitted so far.\<close>

definition synthetic_rect :: "rect \<Rightarrow> rect" where
  "synthetic_rect last_rect =
     (let h0 = fsub (ry1 last_rect) (ry0 last_rect);
          h = (if h0 < fl 0.02 then fl 0.02 else h0);
          new_y0 = fadd (ry1 last_rect) (fmul h (fl 0.2));
          new_y1 = fadd new_y0 h
      in if new_y1 > fl 0.98
         then Rect (fl 0.05) (max (fl 0.9) (fsub (fl 0.98) h)) (fl 0.95) (fl 0.98)
         else Rect (fl 0.05) new_y0 (fl 0.95) new_y1)"

text \<open>What one gap appends to \<^verbatim>\<open>final_output\<close>.\<close>

definition fill_gap :: "string list \<Rightarrow> box list \<Rightarrow> box list \<Rightarrow> box list" where
  "fill_gap gap_tokens gap_boxes final_output =
     (if gap_tokens \<noteq> [] then
        if gap_boxes \<noteq> [] then
          let rows = group_rows gap_boxes;
              row_widths = map row_width rows;
              total_width = total_row_width row_widths
          in assign_loop gap_tokens total_width row_widths (length rows) 0 rows 0 final_output
        else
          let gap_text = join_sp gap_tokens
          in if final_output \<noteq> [] then
               final_output @ [(synthetic_rect (fst (last final_output)), gap_text)]
             else final_output @ [(Rect 0.0 0.0 1.0 (fl 0.1), gap_text)]
      else final_output)"

text \<open>The loop over \<^verbatim>\<open>matches\<close>, the sentinel included.\<close>

fun reconstruct_loop ::
  "box list \<Rightarrow> string list \<Rightarrow> anchor list \<Rightarrow> int \<Rightarrow> int \<Rightarrow> box list \<Rightarrow> box list" where
  "reconstruct_loop structured_data llm_tokens [] prev_box_idx prev_llm_idx final_output =
     final_output"
| "reconstruct_loop structured_data llm_tokens (a # as) prev_box_idx prev_llm_idx final_output =
     (let curr_box_idx = box_idx a;
          curr_llm_idx = llm_idx a;
          gap_tokens = py_slice llm_tokens (prev_llm_idx + 1) curr_llm_idx;
          gap_boxes = py_slice structured_data (prev_box_idx + 1) curr_box_idx;
          filled = fill_gap gap_tokens gap_boxes final_output
      in reconstruct_loop structured_data llm_tokens as curr_box_idx curr_llm_idx
           (case a of
              Anchor _ _ t r \<Rightarrow> filled @ [(r, t)]
            | Sentinel _ _ \<Rightarrow> filled))"

definition reconstruct :: "box list \<Rightarrow> string list \<Rightarrow> anchor list \<Rightarrow> box list" where
  "reconstruct structured_data llm_tokens matches =
     reconstruct_loop structured_data llm_tokens
       (matches @ [Sentinel (int (length structured_data)) (int (length llm_tokens))])
       (- 1) (- 1) []"

subsection \<open>The whole function\<close>

definition align_text :: "scorer \<Rightarrow> box list \<Rightarrow> llm_text \<Rightarrow> box list" where
  "align_text scorer structured_data llm_text =
     (if \<not> truthy llm_text then structured_data
      else
        let full = full_llm_text llm_text;
            llm_tokens = split_ws full
        in if llm_tokens = [] then structured_data
           else
             let matches = find_anchors scorer structured_data llm_tokens;
                 final_output = reconstruct structured_data llm_tokens matches
             in if final_output = [] \<and> structured_data \<noteq> []
                then [(Rect 0.0 0.0 1.0 1.0, full @ [newline])]
                else final_output)"

section \<open>Notions used in the statements\<close>

text \<open>
  The index of the first score that reaches the maximum of a list of scores: the
  position \<^verbatim>\<open>extractOne\<close> reports.
\<close>

definition first_best :: "real list \<Rightarrow> nat" where
  "first_best scores = length (takeWhile (\<lambda>s. s < Max (set scores)) scores)"

text \<open>
  The order on anchors and the invariant of the matcher's state before the box with index
  \<open>bidx\<close>: the cursor is within the token list, the anchors are increasing, and each
  is an accepted anchor of an earlier box that carries the token at its index, which lies
  before the cursor.
\<close>

definition anchor_lt :: "anchor \<Rightarrow> anchor \<Rightarrow> bool" where
  "anchor_lt a b = (box_idx a < box_idx b \<and> llm_idx a < llm_idx b)"

definition matcher_inv :: "string list \<Rightarrow> int \<Rightarrow> anchor list \<times> int \<Rightarrow> bool" where
  "matcher_inv llm_tokens bidx st =
     (case st of (matches, llm_search_idx) \<Rightarrow>
        0 \<le> llm_search_idx \<and> llm_search_idx \<le> int (length llm_tokens)
        \<and> sorted_wrt anchor_lt matches
        \<and> (\<forall>a \<in> set matches.
              is_Anchor a \<and> 0 \<le> box_idx a \<and> box_idx a < bidx
              \<and> 0 \<le> llm_idx a \<and> llm_idx a < llm_search_idx
              \<and> anchor_text a = llm_tokens ! nat (llm_idx a)))"

text \<open>
  The range of a rect in the data model: all four coordinates lie between 0 and 1. In
  that range no operation of the code overflows, so that the rounded arithmetic above is
  the code's.
\<close>

definition in_unit_square :: "rect \<Rightarrow> bool" where
  "in_unit_square r =
     (0 \<le> rx0 r \<and> rx0 r \<le> 1 \<and> 0 \<le> ry0 r \<and> ry0 r \<le> 1
      \<and> 0 \<le> rx1 r \<and> rx1 r \<le> 1 \<and> 0 \<le> ry1 r \<and> ry1 r \<le> 1)"

text \<open>
  The tokens read back from an output list: the texts of its elements, split at
  whitespace, in output order. A proper token is a non-empty string without whitespace,
  as \<^verbatim>\<open>split()\<close> produces them.
\<close>

definition output_tokens :: "box list \<Rightarrow> string list" where
  "output_tokens out = concat (map (\<lambda>b. split_ws (snd b)) out)"

definition proper_token :: "string \<Rightarrow> bool" where
  "proper_token t = (t \<noteq> [] \<and> list_all (\<lambda>c. \<not> is_space c) t)"

text \<open>
  A gap is degenerate when it has tokens and its boxes form more than one row while the
  total row width, as the code computes it, is zero; \<open>gap_ok\<close> excludes that. \<open>gaps_ok\<close> states it for every
  gap the reconstruction loop visits, following the loop's own indices.
\<close>

definition gap_ok :: "string list \<Rightarrow> box list \<Rightarrow> bool" where
  "gap_ok gap_tokens gap_boxes =
     (gap_tokens = [] \<or> gap_boxes = [] \<or> length (group_rows gap_boxes) = 1
      \<or> total_row_width (map row_width (group_rows gap_boxes)) \<noteq> 0)"

fun gaps_ok :: "box list \<Rightarrow> string list \<Rightarrow> anchor list \<Rightarrow> int \<Rightarrow> int \<Rightarrow> bool" where
  "gaps_ok structured_data llm_tokens [] prev_box_idx prev_llm_idx = True"
| "gaps_ok structured_data llm_tokens (a # as) prev_box_idx prev_llm_idx =
     (gap_ok (py_slice llm_tokens (prev_llm_idx + 1) (llm_idx a))
             (py_slice structured_data (prev_box_idx + 1) (box_idx a))
      \<and> gaps_ok structured_data llm_tokens as (box_idx a) (llm_idx a))"

text \<open>
  What the reconstruction loop needs of an entry of \<^verbatim>\<open>matches\<close>, given the
  indices of the entry before it: both indices advance, an anchor carries the token at
  its index, and the sentinel points just past the last token.
\<close>

definition anchor_fits :: "string list \<Rightarrow> int \<Rightarrow> int \<Rightarrow> anchor \<Rightarrow> bool" where
  "anchor_fits llm_tokens pb pl a =
     (pl < llm_idx a \<and> pb < box_idx a \<and>
      (case a of
         Anchor _ i t _ \<Rightarrow> i < int (length llm_tokens) \<and> t = llm_tokens ! nat i
       | Sentinel _ i \<Rightarrow> i = int (length llm_tokens)))"

section \<open>Properties of the rounding\<close>

text \<open>
  The exponent is the right one, and \<open>fl x\<close>, a multiple of the spacing of the doubles
  around \<open>x\<close> by its definition, is within half of that spacing of \<open>x\<close>.
\<close>

lemma ilog2_nonneg: "0 \<le> ilog2 n"
  by (induction n rule: ilog2.induct) (subst ilog2.simps, simp)

lemma ilog2_bounds: "1 \<le> n \<Longrightarrow> 2 ^ nat (ilog2 n) \<le> n \<and> n < 2 * 2 ^ nat (ilog2 n)"
proof (induction n rule: ilog2.induct)
  case (1 n)
  show ?case
  proof (cases "n < 2")
    case True
    then have "n = 1" using "1.prems" by simp
    then show ?thesis by (subst (1 2) ilog2.simps) simp
  next
    case False
    then have h: "1 \<le> n div 2" by simp
    define k where "k = nat (ilog2 (n div 2))"
    have ih: "2 ^ k \<le> n div 2" "n div 2 < 2 * 2 ^ k"
      using "1.IH" [OF False h] by (simp_all add: k_def)
    have e: "nat (ilog2 n) = Suc k"
      using False ilog2_nonneg [of "n div 2"] by (subst ilog2.simps) (simp add: k_def nat_add_distrib)
    have "2 * 2 ^ k \<le> n" using ih(1) by linarith
    moreover have "n < 2 * (2 * 2 ^ k)" using ih(2) by linarith
    ultimately show ?thesis unfolding e by simp
  qed
qed

lemma powi_neg_nat: "(2::real) powi (- int m) = 1 / 2 ^ m"
  by (simp add: power_int_minus inverse_eq_divide)

lemma binary_exponent_bounds:
  assumes "0 < x"
  shows "2 powi binary_exponent x \<le> x \<and> x < 2 powi (binary_exponent x + 1)"
proof (cases "1 \<le> x")
  case True
  define n where "n = \<lfloor>x\<rfloor>"
  define k where "k = nat (ilog2 n)"
  have n1: "1 \<le> n" using True by (simp add: n_def)
  have b: "2 ^ k \<le> n" "n < 2 * 2 ^ k" using ilog2_bounds [OF n1] by (simp_all add: k_def)
  have e: "binary_exponent x = int k"
    using True ilog2_nonneg [of n] by (simp add: binary_exponent_def n_def k_def)
  have "real_of_int (2 ^ k) \<le> real_of_int n" using b(1) by (rule iffD2 [OF of_int_le_iff])
  then have "2 ^ k \<le> real_of_int n" by simp
  moreover have "real_of_int n \<le> x" by (simp add: n_def)
  ultimately have lo: "2 ^ k \<le> x" by linarith
  have "n + 1 \<le> 2 * 2 ^ k" using b(2) by simp
  then have "real_of_int (n + 1) \<le> real_of_int (2 * 2 ^ k)" by (rule iffD2 [OF of_int_le_iff])
  then have "real_of_int n + 1 \<le> 2 * 2 ^ k" by simp
  moreover have "x < real_of_int n + 1" unfolding n_def by linarith
  ultimately have hi: "x < 2 * 2 ^ k" by linarith
  show ?thesis unfolding e using lo hi by (simp add: power_int_add)
next
  case False
  define y where "y = 1 / x"
  define n where "n = \<lceil>y\<rceil>"
  have y1: "1 < y" using False assms by (simp add: y_def)
  then have n2: "2 \<le> n" unfolding n_def by linarith
  define k where "k = nat (ilog2 (n - 1))"
  have b: "2 ^ k \<le> n - 1" "n - 1 < 2 * 2 ^ k"
    using ilog2_bounds [of "n - 1"] n2 by (simp_all add: k_def)
  have e: "binary_exponent x = - (1 + int k)"
    using False n2 ilog2_nonneg [of "n - 1"]
    by (simp add: binary_exponent_def Let_def n_def [symmetric] y_def [symmetric] k_def)
  have "real_of_int (2 ^ k) \<le> real_of_int (n - 1)" using b(1) by (rule iffD2 [OF of_int_le_iff])
  then have "2 ^ k \<le> real_of_int n - 1" by simp
  moreover have "real_of_int n - 1 < y" unfolding n_def by linarith
  ultimately have lo: "2 ^ k < y" by linarith
  have "n \<le> 2 * 2 ^ k" using b(2) by simp
  then have "real_of_int n \<le> real_of_int (2 * 2 ^ k)" by (rule iffD2 [OF of_int_le_iff])
  then have "real_of_int n \<le> 2 * 2 ^ k" by simp
  moreover have "y \<le> real_of_int n" by (simp add: n_def)
  ultimately have hi: "y \<le> 2 * 2 ^ k" by linarith
  have x: "x = 1 / y" by (simp add: y_def)
  have p: "(0::real) < 2 ^ k" by simp
  have "1 / (2 * 2 ^ k) \<le> x"
    unfolding x using hi y1 by (intro divide_left_mono) simp_all
  moreover have "x < 1 / 2 ^ k"
    unfolding x using lo p y1 by (intro divide_strict_left_mono) simp_all
  moreover have "(2::real) powi (- (1 + int k)) = 1 / (2 * 2 ^ k)"
    using powi_neg_nat [of "Suc k"] by (simp add: algebra_simps)
  moreover have "(2::real) powi (- (1 + int k) + 1) = 1 / 2 ^ k"
    using powi_neg_nat [of k] by simp
  ultimately show ?thesis unfolding e by simp
qed

lemma round_half_even_error: "\<bar>of_int (round_half_even x) - x\<bar> \<le> 1 / 2"
  unfolding round_half_even_def Let_def by (auto simp: abs_le_iff)

lemma fl_error:
  "\<bar>fl x - x\<bar> \<le> 2 powi (max (binary_exponent \<bar>x\<bar> - 52) (- 1074)) / 2"
proof (cases "x = 0")
  case True
  then show ?thesis by (simp add: fl_def)
next
  case False
  define q where "q = max (binary_exponent \<bar>x\<bar> - 52) (- 1074)"
  define u :: real where "u = 2 powi q"
  have u: "0 < u" by (simp add: u_def)
  have "fl x - x = (of_int (round_half_even (x / u)) - x / u) * u"
    using False u by (simp add: fl_def Let_def q_def u_def field_simps)
  then have "\<bar>fl x - x\<bar> = \<bar>of_int (round_half_even (x / u)) - x / u\<bar> * u"
    using u by (simp add: abs_mult)
  also have "\<dots> \<le> 1 / 2 * u"
    using u round_half_even_error [of "x / u"] by (intro mult_right_mono) simp_all
  finally show ?thesis by (simp add: u_def q_def)
qed

text \<open>Rounding keeps the sign.\<close>

lemma round_half_even_nonneg: "0 \<le> x \<Longrightarrow> 0 \<le> round_half_even x"
  by (auto simp: round_half_even_def Let_def)

lemma fl_nonneg: "0 \<le> x \<Longrightarrow> 0 \<le> fl x"
  by (simp add: fl_def Let_def round_half_even_nonneg)

lemma fsub_nonneg: "b \<le> a \<Longrightarrow> 0 \<le> fsub a b"
  by (simp add: fsub_def fl_nonneg)

lemma fadd_nonneg: "0 \<le> a \<Longrightarrow> 0 \<le> b \<Longrightarrow> 0 \<le> fadd a b"
  by (simp add: fadd_def fl_nonneg)

lemma fmul_nonneg: "0 \<le> a \<Longrightarrow> 0 \<le> b \<Longrightarrow> 0 \<le> fmul a b"
  by (simp add: fmul_def fl_nonneg)

lemma fdiv_nonneg: "0 \<le> a \<Longrightarrow> 0 \<le> b \<Longrightarrow> 0 \<le> fdiv a b"
  by (simp add: fdiv_def fl_nonneg)

lemma fmul_commute: "fmul a b = fmul b a"
  by (simp add: fmul_def mult.commute)

lemma foldl_fadd_nonneg: "0 \<le> acc \<Longrightarrow> list_all (\<lambda>w. 0 \<le> w) ws \<Longrightarrow> 0 \<le> foldl fadd acc ws"
  by (induction ws arbitrary: acc) (simp_all add: fadd_nonneg)

lemma total_row_width_nonneg: "list_all (\<lambda>w. 0 \<le> w) ws \<Longrightarrow> 0 \<le> total_row_width ws"
  by (simp add: total_row_width_def foldl_fadd_nonneg)

section \<open>Passthrough of the detection list\<close>

text \<open>
  C9: with empty or absent content text (\<^verbatim>\<open>None\<close>, the empty string or the empty
  list of lines) \<^verbatim>\<open>align_text\<close> returns the detection boxes unchanged, whatever the
  boxes are, and so in particular for every non-empty list of boxes.
\<close>

theorem passthrough_empty_content:
  "align_text scorer structured_data NoText = structured_data
   \<and> align_text scorer structured_data (Str []) = structured_data
   \<and> align_text scorer structured_data (Lines []) = structured_data"
  by (simp add: align_text_def)

text \<open>
  C10: a non-empty content input whose whitespace-split token sequence is empty (a
  whitespace-only string, or lines that join to one) also returns the detection list
  unchanged.
\<close>

theorem passthrough_no_tokens:
  "truthy llm_text \<Longrightarrow> split_ws (full_llm_text llm_text) = [] \<Longrightarrow>
     align_text scorer structured_data llm_text = structured_data"
  by (simp add: align_text_def Let_def)

theorem passthrough_no_tokens_witness:
  "truthy (Str ('' '' @ [newline] @ ''  ''))
   \<and> split_ws (full_llm_text (Str ('' '' @ [newline] @ ''  ''))) = []
   \<and> align_text fuzz_ratio [(Rect 0 0 1 0.1, ''Helo'')] (Str ('' '' @ [newline] @ ''  ''))
       = [(Rect 0 0 1 0.1, ''Helo'')]
   \<and> truthy (Lines ['' '', [], [newline]])
   \<and> split_ws (full_llm_text (Lines ['' '', [], [newline]])) = []
   \<and> align_text fuzz_ratio [(Rect 0 0 1 0.1, ''Helo'')] (Lines ['' '', [], [newline]])
       = [(Rect 0 0 1 0.1, ''Helo'')]"
proof -
  have t1: "truthy (Str ('' '' @ [newline] @ ''  ''))" by simp
  have s1: "split_ws (full_llm_text (Str ('' '' @ [newline] @ ''  ''))) = []"
    by (simp add: split_ws_def is_space_def newline_def)
  have t2: "truthy (Lines ['' '', [], [newline]])" by simp
  have s2: "split_ws (full_llm_text (Lines ['' '', [], [newline]])) = []"
    by (simp add: split_ws_def is_space_def newline_def)
  show ?thesis
    using t1 s1 t2 s2
      passthrough_no_tokens [OF t1 s1, of fuzz_ratio "[(Rect 0 0 1 0.1, ''Helo'')]"]
      passthrough_no_tokens [OF t2 s2, of fuzz_ratio "[(Rect 0 0 1 0.1, ''Helo'')]"]
    by simp
qed

section \<open>The synthetic box of a gap without boxes\<close>

text \<open>
  C8: a gap with tokens and no boxes appends exactly one element, whose text is the gap
  tokens joined by single spaces. With a prior output element \<open>prev\<close> its rect is
  \<open>[0.05, y0, 0.95, y1]\<close> for \<open>h = max (prev.y1 - prev.y0) 0.02\<close>,
  \<open>y0 = prev.y1 + 0.2 * h\<close>, \<open>y1 = y0 + h\<close>, and when \<open>y1 > 0.98\<close> it is
  \<open>y1 = 0.98\<close>, \<open>y0 = max 0.9 (0.98 - h)\<close>; with no prior element the rect is
  \<open>[0.0, 0.0, 1.0, 0.1]\<close>. Every operation and literal is the floating-point one, as
  in the code, and the elements emitted so far lie in the unit square. The witness has the four cases: no clamp, the clamp with \<open>y0 = 0.9\<close>
  (prior extent 0.1..0.5, where the rounded sum is just above 0.98), the clamp with
  \<open>y0 = 0.98 - h\<close>, and no prior element.
\<close>

theorem synthetic_gap:
  "gap_tokens \<noteq> [] \<Longrightarrow> list_all (\<lambda>b. in_unit_square (fst b)) final_output \<Longrightarrow>
     fill_gap gap_tokens [] final_output =
       final_output @
         [(if final_output \<noteq> [] then
             (let prev = fst (last final_output);
                  h = max (fsub (ry1 prev) (ry0 prev)) (fl 0.02);
                  y0 = fadd (ry1 prev) (fmul (fl 0.2) h);
                  y1 = fadd y0 h
              in if y1 > fl 0.98
                 then Rect (fl 0.05) (max (fl 0.9) (fsub (fl 0.98) h)) (fl 0.95) (fl 0.98)
                 else Rect (fl 0.05) y0 (fl 0.95) y1)
           else Rect 0.0 0.0 1.0 (fl 0.1),
           join_sp gap_tokens)]"
  by (simp add: fill_gap_def synthetic_rect_def Let_def max_def fmul_commute)

theorem synthetic_gap_witness:
  "[''world''] \<noteq> []
   \<and> list_all (\<lambda>b. in_unit_square (fst b))
        [(Rect (fl 0.1) (fl 0.1) (fl 0.5) (fl 0.14), ''Hello'')]
   \<and> list_all (\<lambda>b. in_unit_square (fst b))
        [(Rect (fl 0.1) (fl 0.1) (fl 0.5) (fl 0.5), ''Hello'')]
   \<and> list_all (\<lambda>b. in_unit_square (fst b))
        [(Rect (fl 0.1) (fl 0.9) (fl 0.5) (fl 0.97), ''Hello'')]
   \<and> fill_gap [''world''] [] [(Rect (fl 0.1) (fl 0.1) (fl 0.5) (fl 0.14), ''Hello'')]
       = [(Rect (fl 0.1) (fl 0.1) (fl 0.5) (fl 0.14), ''Hello''),
          (Rect (fl 0.05) (fl 0.14800000000000002) (fl 0.95) (fl 0.18800000000000003), ''world'')]
   \<and> fill_gap [''world''] [] [(Rect (fl 0.1) (fl 0.1) (fl 0.5) (fl 0.5), ''Hello'')]
       = [(Rect (fl 0.1) (fl 0.1) (fl 0.5) (fl 0.5), ''Hello''),
          (Rect (fl 0.05) (fl 0.9) (fl 0.95) (fl 0.98), ''world'')]
   \<and> fill_gap [''last'', ''line''] [] [(Rect (fl 0.1) (fl 0.9) (fl 0.5) (fl 0.97), ''Hello'')]
       = [(Rect (fl 0.1) (fl 0.9) (fl 0.5) (fl 0.97), ''Hello''),
          (Rect (fl 0.05) (fl 0.91) (fl 0.95) (fl 0.98), ''last line'')]
   \<and> fill_gap [''Some'', ''text''] [] [] = [(Rect 0 0 1 (fl 0.1), ''Some text'')]"
proof -
  have n: "[''world''] \<noteq> ([] :: string list)" "[''last'', ''line''] \<noteq> ([] :: string list)"
    "[''Some'', ''text''] \<noteq> ([] :: string list)"
    by simp_all
  have u1: "list_all (\<lambda>b. in_unit_square (fst b))
              [(Rect (fl 0.1) (fl 0.1) (fl 0.5) (fl 0.14), ''Hello'')]"
    by code_simp
  have u2: "list_all (\<lambda>b. in_unit_square (fst b))
              [(Rect (fl 0.1) (fl 0.1) (fl 0.5) (fl 0.5), ''Hello'')]"
    by code_simp
  have u3: "list_all (\<lambda>b. in_unit_square (fst b))
              [(Rect (fl 0.1) (fl 0.9) (fl 0.5) (fl 0.97), ''Hello'')]"
    by code_simp
  have u4: "list_all (\<lambda>b. in_unit_square (fst b)) ([] :: box list)"
    by simp
  have r1: "(let prev = Rect (fl 0.1) (fl 0.1) (fl 0.5) (fl 0.14);
                  h = max (fsub (ry1 prev) (ry0 prev)) (fl 0.02);
                  y0 = fadd (ry1 prev) (fmul (fl 0.2) h);
                  y1 = fadd y0 h
              in if y1 > fl 0.98
                 then Rect (fl 0.05) (max (fl 0.9) (fsub (fl 0.98) h)) (fl 0.95) (fl 0.98)
                 else Rect (fl 0.05) y0 (fl 0.95) y1)
            = Rect (fl 0.05) (fl 0.14800000000000002) (fl 0.95) (fl 0.18800000000000003)"
    by code_simp
  have r2: "(let prev = Rect (fl 0.1) (fl 0.1) (fl 0.5) (fl 0.5);
                  h = max (fsub (ry1 prev) (ry0 prev)) (fl 0.02);
                  y0 = fadd (ry1 prev) (fmul (fl 0.2) h);
                  y1 = fadd y0 h
              in if y1 > fl 0.98
                 then Rect (fl 0.05) (max (fl 0.9) (fsub (fl 0.98) h)) (fl 0.95) (fl 0.98)
                 else Rect (fl 0.05) y0 (fl 0.95) y1)
            = Rect (fl 0.05) (fl 0.9) (fl 0.95) (fl 0.98)"
    by code_simp
  have r3: "(let prev = Rect (fl 0.1) (fl 0.9) (fl 0.5) (fl 0.97);
                  h = max (fsub (ry1 prev) (ry0 prev)) (fl 0.02);
                  y0 = fadd (ry1 prev) (fmul (fl 0.2) h);
                  y1 = fadd y0 h
              in if y1 > fl 0.98
                 then Rect (fl 0.05) (max (fl 0.9) (fsub (fl 0.98) h)) (fl 0.95) (fl 0.98)
                 else Rect (fl 0.05) y0 (fl 0.95) y1)
            = Rect (fl 0.05) (fl 0.91) (fl 0.95) (fl 0.98)"
    by code_simp
  have g1: "fill_gap [''world''] [] [(Rect (fl 0.1) (fl 0.1) (fl 0.5) (fl 0.14), ''Hello'')]
       = [(Rect (fl 0.1) (fl 0.1) (fl 0.5) (fl 0.14), ''Hello''),
          (Rect (fl 0.05) (fl 0.14800000000000002) (fl 0.95) (fl 0.18800000000000003), ''world'')]"
    unfolding synthetic_gap [OF n(1) u1] using r1 by simp
  have g2: "fill_gap [''world''] [] [(Rect (fl 0.1) (fl 0.1) (fl 0.5) (fl 0.5), ''Hello'')]
       = [(Rect (fl 0.1) (fl 0.1) (fl 0.5) (fl 0.5), ''Hello''),
          (Rect (fl 0.05) (fl 0.9) (fl 0.95) (fl 0.98), ''world'')]"
    unfolding synthetic_gap [OF n(1) u2] using r2 by simp
  have g3: "fill_gap [''last'', ''line''] [] [(Rect (fl 0.1) (fl 0.9) (fl 0.5) (fl 0.97), ''Hello'')]
       = [(Rect (fl 0.1) (fl 0.9) (fl 0.5) (fl 0.97), ''Hello''),
          (Rect (fl 0.05) (fl 0.91) (fl 0.95) (fl 0.98), ''last line'')]"
    unfolding synthetic_gap [OF n(2) u3] using r3 by simp
  have g4: "fill_gap [''Some'', ''text''] [] [] = [(Rect 0 0 1 (fl 0.1), ''Some text'')]"
    unfolding synthetic_gap [OF n(3) u4] by simp
  show ?thesis using u1 u2 u3 g1 g2 g3 g4 by simp
qed

section \<open>Row grouping\<close>

lemma group_loop_nonempty:
  "group_loop done_rows current_row bs \<noteq> []"
  by (induction bs arbitrary: done_rows current_row) auto

lemma group_loop_concat:
  "concat (group_loop done_rows current_row bs) = concat done_rows @ current_row @ bs"
  by (induction bs arbitrary: done_rows current_row) auto

lemma same_line_iff:
  "same_line p c \<longleftrightarrow>
     max 0 (fsub (min (ry1 p) (ry1 c)) (max (ry0 p) (ry0 c)))
       > fmul (fl 0.5) (min (fsub (ry1 p) (ry0 p)) (fsub (ry1 c) (ry0 c)))"
  by (simp add: same_line_def Let_def fmul_commute)

lemma group_loop_snoc:
  "group_loop done_rows current_row (bs @ [b]) =
     (let rows = group_loop done_rows current_row bs
      in if same_line (fst (last (last rows))) (fst b)
         then butlast rows @ [last rows @ [b]]
         else rows @ [[b]])"
proof (induction bs arbitrary: done_rows current_row)
  case Nil
  show ?case by (simp add: Let_def)
next
  case (Cons x xs)
  show ?case by (simp add: Cons.IH)
qed


text \<open>
  C7: row grouping is one pass from left to right. The first gap box starts a row; every
  later box \<open>b\<close> is compared with the last box of the current (last) row, not with the
  row's union: it is appended to that row if and only if their vertical intersection
  exceeds half of the shorter of the two heights, and otherwise it starts a new row. The
  rows, concatenated, are the gap boxes in their order. The differences and the product
  are the floating-point ones, as in the code, and the boxes lie in the unit square. The
  witness is the scenario of the claim
  on the doubles it names: extents 0.10..0.14 and 0.11..0.15 fall in one row and
  0.30..0.34 starts a new one. It also has two inputs where rounding decides: extents
  0.1..0.14 and 0.12..0.16 fall in one row, and 29/1000..63/1000 and 46/1000..93/1000
  do not.
\<close>

theorem row_grouping:
  assumes "list_all (\<lambda>b. in_unit_square (fst b)) (gap_boxes @ [b])"
  shows "group_rows (gap_boxes @ [b]) =
     (if gap_boxes = [] then [[b]]
      else
        let rows = group_rows gap_boxes;
            prev = fst (last (last rows));
            curr = fst b;
            intersection =
              max 0 (fsub (min (ry1 prev) (ry1 curr)) (max (ry0 prev) (ry0 curr)));
            shorter = min (fsub (ry1 prev) (ry0 prev)) (fsub (ry1 curr) (ry0 curr))
        in if intersection > fmul (fl 0.5) shorter then butlast rows @ [last rows @ [b]]
           else rows @ [[b]])
   \<and> concat (group_rows gap_boxes) = gap_boxes"
proof (cases gap_boxes)
  case Nil
  then show ?thesis by (simp add: group_rows_def)
next
  case (Cons x xs)
  have rows: "group_rows gap_boxes = group_loop [] [x] xs"
    by (simp add: Cons group_rows_def)
  have snoc: "group_rows (gap_boxes @ [b]) = group_loop [] [x] (xs @ [b])"
    by (simp add: Cons group_rows_def)
  have ne: "gap_boxes \<noteq> []" by (simp add: Cons)
  have c: "concat (group_loop [] [x] xs) = gap_boxes"
    by (simp add: group_loop_concat Cons)
  show ?thesis
    unfolding rows snoc group_loop_snoc same_line_iff Let_def c
    using ne by simp
qed

theorem row_grouping_witness:
  "list_all (\<lambda>b. in_unit_square (fst b))
     [(Rect (fl 0.1) (fl 0.10) (fl 0.4) (fl 0.14), ''ab''),
      (Rect (fl 0.5) (fl 0.11) (fl 0.9) (fl 0.15), ''cd''),
      (Rect (fl 0.1) (fl 0.30) (fl 0.4) (fl 0.34), ''ef''),
      (Rect (fl 0.5) (fl 0.12) (fl 0.9) (fl 0.16), ''cd''),
      (Rect (fl 0.1) (fdiv 29 1000) (fl 0.4) (fdiv 63 1000), ''ab''),
      (Rect (fl 0.5) (fdiv 46 1000) (fl 0.9) (fdiv 93 1000), ''cd'')]
   \<and> group_rows [(Rect (fl 0.1) (fl 0.10) (fl 0.4) (fl 0.14), ''ab''),
               (Rect (fl 0.5) (fl 0.11) (fl 0.9) (fl 0.15), ''cd'')]
     = [[(Rect (fl 0.1) (fl 0.10) (fl 0.4) (fl 0.14), ''ab''),
         (Rect (fl 0.5) (fl 0.11) (fl 0.9) (fl 0.15), ''cd'')]]
   \<and> group_rows [(Rect (fl 0.1) (fl 0.10) (fl 0.4) (fl 0.14), ''ab''),
                  (Rect (fl 0.5) (fl 0.11) (fl 0.9) (fl 0.15), ''cd''),
                  (Rect (fl 0.1) (fl 0.30) (fl 0.4) (fl 0.34), ''ef'')]
     = [[(Rect (fl 0.1) (fl 0.10) (fl 0.4) (fl 0.14), ''ab''),
         (Rect (fl 0.5) (fl 0.11) (fl 0.9) (fl 0.15), ''cd'')],
        [(Rect (fl 0.1) (fl 0.30) (fl 0.4) (fl 0.34), ''ef'')]]
   \<and> group_rows [(Rect (fl 0.1) (fl 0.1) (fl 0.4) (fl 0.14), ''ab''),
                  (Rect (fl 0.5) (fl 0.12) (fl 0.9) (fl 0.16), ''cd'')]
     = [[(Rect (fl 0.1) (fl 0.1) (fl 0.4) (fl 0.14), ''ab''),
         (Rect (fl 0.5) (fl 0.12) (fl 0.9) (fl 0.16), ''cd'')]]
   \<and> group_rows [(Rect (fl 0.1) (fdiv 29 1000) (fl 0.4) (fdiv 63 1000), ''ab''),
                  (Rect (fl 0.5) (fdiv 46 1000) (fl 0.9) (fdiv 93 1000), ''cd'')]
     = [[(Rect (fl 0.1) (fdiv 29 1000) (fl 0.4) (fdiv 63 1000), ''ab'')],
        [(Rect (fl 0.5) (fdiv 46 1000) (fl 0.9) (fdiv 93 1000), ''cd'')]]"
proof -
  let ?a = "(Rect (fl 0.1) (fl 0.10) (fl 0.4) (fl 0.14), ''ab'')"
  let ?b = "(Rect (fl 0.5) (fl 0.11) (fl 0.9) (fl 0.15), ''cd'')"
  let ?c = "(Rect (fl 0.1) (fl 0.30) (fl 0.4) (fl 0.34), ''ef'')"
  let ?d = "(Rect (fl 0.5) (fl 0.12) (fl 0.9) (fl 0.16), ''cd'')"
  let ?e = "(Rect (fl 0.1) (fdiv 29 1000) (fl 0.4) (fdiv 63 1000), ''ab'')"
  let ?f = "(Rect (fl 0.5) (fdiv 46 1000) (fl 0.9) (fdiv 93 1000), ''cd'')"
  have ab: "max 0 (fsub (min (fl 0.14) (fl 0.15)) (max (fl 0.10) (fl 0.11)))
              > fmul (fl 0.5) (min (fsub (fl 0.14) (fl 0.10)) (fsub (fl 0.15) (fl 0.11)))"
    by code_simp
  have bc: "\<not> max 0 (fsub (min (fl 0.15) (fl 0.34)) (max (fl 0.11) (fl 0.30)))
              > fmul (fl 0.5) (min (fsub (fl 0.15) (fl 0.11)) (fsub (fl 0.34) (fl 0.30)))"
    by code_simp
  have ad: "max 0 (fsub (min (fl 0.14) (fl 0.16)) (max (fl 0.1) (fl 0.12)))
              > fmul (fl 0.5) (min (fsub (fl 0.14) (fl 0.1)) (fsub (fl 0.16) (fl 0.12)))"
    by code_simp
  have ef: "\<not> max 0 (fsub (min (fdiv 63 1000) (fdiv 93 1000)) (max (fdiv 29 1000) (fdiv 46 1000)))
              > fmul (fl 0.5) (min (fsub (fdiv 63 1000) (fdiv 29 1000))
                                   (fsub (fdiv 93 1000) (fdiv 46 1000)))"
    by code_simp
  have u: "list_all (\<lambda>b. in_unit_square (fst b)) [?a, ?b, ?c, ?d, ?e, ?f]"
    by code_simp
  have one: "group_rows [x] = [[x]]" for x :: box
    by (simp add: group_rows_def)
  have two: "group_rows [?a, ?b] = [[?a, ?b]]"
    using row_grouping [of "[?a]" ?b] u ab by (simp add: one Let_def)
  have three: "group_rows [?a, ?b, ?c] = [[?a, ?b], [?c]]"
    using row_grouping [of "[?a, ?b]" ?c] u bc two by (simp add: Let_def)
  have four: "group_rows [?a, ?d] = [[?a, ?d]]"
    using row_grouping [of "[?a]" ?d] u ad by (simp add: one Let_def)
  have five: "group_rows [?e, ?f] = [[?e], [?f]]"
    using row_grouping [of "[?e]" ?f] u ef by (simp add: one Let_def)
  show ?thesis using u two three four five by simp
qed

section \<open>The anchor matcher\<close>

lemma less_Max_set: "t \<in> set ss \<Longrightarrow> (s::real) < t \<Longrightarrow> s < Max (set ss)"
proof -
  assume "t \<in> set ss" "s < t"
  moreover from this have "t \<le> Max (set ss)" by (intro Max_ge) auto
  ultimately show ?thesis by linarith
qed

lemma less_Max_map: "d \<in> set cs \<Longrightarrow> (s::real) < f d \<Longrightarrow> s < Max (set (map f cs))"
  by (rule less_Max_set [of "f d"]) auto

lemma first_best_Cons:
  "first_best (s # ss) = (if ss = [] \<or> (\<forall>t \<in> set ss. t \<le> s) then 0 else Suc (first_best ss))"
proof (cases "ss = [] \<or> (\<forall>t \<in> set ss. t \<le> s)")
  case True
  then have "Max (set (s # ss)) = s"
    by (auto intro!: Max_eqI)
  with True show ?thesis by (simp add: first_best_def)
next
  case False
  then obtain t where t: "t \<in> set ss" "s < t" by (auto simp: not_le)
  have ne: "set ss \<noteq> {}" using t by auto
  have "s < Max (set ss)" using t by (rule less_Max_set)
  then have m: "Max (set (s # ss)) = Max (set ss)" "s < Max (set ss)"
    using ne by (simp_all add: max_def)
  show ?thesis using False unfolding first_best_def m using m(2) by simp
qed

lemma extract_loop_Some:
  "extract_loop sc q i cs (Some (c0, s0, i0)) =
     (if \<forall>c \<in> set cs. sc q c \<le> s0 then Some (c0, s0, i0)
      else Some (cs ! first_best (map (sc q) cs), Max (set (map (sc q) cs)),
                 i + first_best (map (sc q) cs)))"
proof (induction cs arbitrary: i c0 s0 i0)
  case Nil
  show ?case by simp
next
  case (Cons c cs)
  show ?case
  proof (cases "s0 < sc q c")
    case True
    note gt = this
    show ?thesis
    proof (cases "\<forall>d \<in> set cs. sc q d \<le> sc q c")
      case True
      then have "Max (set (map (sc q) (c # cs))) = sc q c"
        by (auto intro!: Max_eqI)
      moreover have "first_best (map (sc q) (c # cs)) = 0"
        using True by (simp add: first_best_Cons)
      ultimately show ?thesis using gt True
        by (simp add: Cons.IH not_le Let_def)
    next
      case False
      then obtain d where d: "d \<in> set cs" "sc q c < sc q d" by (auto simp: not_le)
      have ne: "set (map (sc q) cs) \<noteq> {}" using d by auto
      have "sc q c < Max (set (map (sc q) cs))"
        using d by (rule less_Max_map)
      then have m: "Max (set (map (sc q) (c # cs))) = Max (set (map (sc q) cs))"
        using ne by (simp add: max_def del: set_map)
      have f: "first_best (map (sc q) (c # cs)) = Suc (first_best (map (sc q) cs))"
        using False d by (auto simp add: first_best_Cons)
      have nall: "\<not> (\<forall>d \<in> set (c # cs). sc q d \<le> s0)" using gt by auto
      show ?thesis using gt False nall unfolding m f
        by (simp add: Cons.IH Let_def)
    qed
  next
    case False
    note le = this
    show ?thesis
    proof (cases "\<forall>d \<in> set cs. sc q d \<le> s0")
      case True
      then show ?thesis using le by (simp add: Cons.IH Let_def)
    next
      case False
      then obtain d where d: "d \<in> set cs" "s0 < sc q d" by (auto simp: not_le)
      have ne: "set (map (sc q) cs) \<noteq> {}" using d by auto
      have "s0 < Max (set (map (sc q) cs))"
        using d by (rule less_Max_map)
      then have lt: "sc q c < Max (set (map (sc q) cs))" using le by simp
      then have m: "Max (set (map (sc q) (c # cs))) = Max (set (map (sc q) cs))"
        using ne by (simp add: max_def del: set_map)
      have "\<exists>t \<in> set cs. \<not> sc q t \<le> sc q c" using d le by force
      then have f: "first_best (map (sc q) (c # cs)) = Suc (first_best (map (sc q) cs))"
        by (auto simp add: first_best_Cons)
      show ?thesis using le False unfolding m f
        by (auto simp add: Cons.IH Let_def)
    qed
  qed
qed

lemma extractOne_eq:
  "extractOne sc q cs =
     (if cs = [] then None
      else Some (cs ! first_best (map (sc q) cs), Max (set (map (sc q) cs)),
                 first_best (map (sc q) cs)))"
proof (cases cs)
  case Nil
  then show ?thesis by (simp add: extractOne_def)
next
  case (Cons c cs')
  have e: "extractOne sc q (c # cs') = extract_loop sc q (Suc 0) cs' (Some (c, sc q c, 0))"
    by (simp add: extractOne_def)
  show ?thesis
  proof (cases "\<forall>d \<in> set cs'. sc q d \<le> sc q c")
    case True
    then have "Max (set (map (sc q) (c # cs'))) = sc q c"
      by (auto intro!: Max_eqI)
    moreover have "first_best (map (sc q) (c # cs')) = 0"
      using True by (simp add: first_best_Cons)
    ultimately show ?thesis using True unfolding Cons e extract_loop_Some
      by simp
  next
    case False
    then obtain d where d: "d \<in> set cs'" "sc q c < sc q d" by (auto simp: not_le)
    have ne: "set (map (sc q) cs') \<noteq> {}" using d by auto
    have "sc q c < Max (set (map (sc q) cs'))"
      using d by (rule less_Max_map)
    then have m: "Max (set (map (sc q) (c # cs'))) = Max (set (map (sc q) cs'))"
      using ne by (simp add: max_def del: set_map)
    have f: "first_best (map (sc q) (c # cs')) = Suc (first_best (map (sc q) cs'))"
      using False d by (auto simp add: first_best_Cons)
    show ?thesis using False unfolding Cons e extract_loop_Some m f
      by simp
  qed
qed

lemma first_best_less:
  "scores \<noteq> [] \<Longrightarrow> first_best scores < length scores"
proof -
  assume ne: "scores \<noteq> []"
  have "Max (set scores) \<in> set scores" using ne by (intro Max_in) auto
  then have "\<exists>s \<in> set scores. \<not> s < Max (set scores)" by auto
  then have "takeWhile (\<lambda>s. s < Max (set scores)) scores \<noteq> scores"
    by (metis takeWhile_eq_all_conv)
  moreover have "length (takeWhile (\<lambda>s. s < Max (set scores)) scores) \<le> length scores"
    by (rule length_takeWhile_le)
  ultimately show ?thesis unfolding first_best_def
    by (metis le_neq_implies_less takeWhile_eq_take take_all_iff order_refl)
qed

lemma lower_space: "is_space c \<Longrightarrow> lower_char c = c"
  by (auto simp: is_space_def lower_char_def Let_def)

lemma blank_clean: "strip t = [] \<Longrightarrow> clean_text t = []"
proof -
  assume "strip t = []"
  then have r: "\<forall>c \<in> set (dropWhile is_space t). is_space c"
    by (simp add: strip_def dropWhile_eq_Nil_conv)
  have "dropWhile is_space t = []"
  proof (rule ccontr)
    assume ne: "dropWhile is_space t \<noteq> []"
    then have "\<not> is_space (hd (dropWhile is_space t))" by (rule hd_dropWhile)
    moreover have "hd (dropWhile is_space t) \<in> set (dropWhile is_space t)"
      using ne by (rule hd_in_set)
    ultimately show False using r by blast
  qed
  then have all: "\<forall>c \<in> set t. is_space c" by (simp add: dropWhile_eq_Nil_conv)
  then have "lower t = t" by (simp add: lower_def lower_space map_idI)
  then show ?thesis using \<open>strip t = []\<close> by (simp add: clean_text_def)
qed

lemma py_slice_nonneg:
  "0 \<le> i \<Longrightarrow> 0 \<le> j \<Longrightarrow> py_slice xs i j = take (nat j - nat i) (drop (nat i) xs)"
  by (auto simp: py_slice_def norm_index_def Let_def min_def)

lemma match_step_cases:
  "match_step scorer llm_tokens (matches, idx) bidx (rect, box_text) =
     (let candidates = py_slice llm_tokens idx (min (int (length llm_tokens)) (idx + window_size));
          scores = map (\<lambda>c. scorer (clean_text box_text) (clean_text c)) candidates;
          best = Max (set scores);
          k = first_best scores
      in if clean_text box_text \<noteq> [] \<and> candidates \<noteq> [] \<and> best > 80
         then (matches @ [Anchor bidx (idx + int k) (candidates ! k) rect], idx + int k + 1)
         else (matches, idx))"
proof (cases "strip box_text = []")
  case True
  then show ?thesis using blank_clean [OF True] by (simp add: match_step_def Let_def)
next
  case False
  have m: "map (scorer q) (map clean_text cs) = map (\<lambda>c. scorer q (clean_text c)) cs" for q cs
    by simp
  show ?thesis using False
    unfolding match_step_def Let_def extractOne_eq m
    by (simp add: first_best_less)
qed

lemma match_step_inv:
  assumes "matcher_inv llm_tokens bidx st" and "0 \<le> bidx"
  shows "matcher_inv llm_tokens (bidx + 1) (match_step scorer llm_tokens st bidx b)"
proof -
  obtain matches idx where st: "st = (matches, idx)" by (cases st)
  obtain rect box_text where b: "b = (rect, box_text)" by (cases b)
  define candidates where
    "candidates = py_slice llm_tokens idx (min (int (length llm_tokens)) (idx + window_size))"
  define scores where "scores = map (\<lambda>c. scorer (clean_text box_text) (clean_text c)) candidates"
  define k where "k = first_best scores"
  have idx: "0 \<le> idx" "idx \<le> int (length llm_tokens)"
    using assms(1) by (simp_all add: matcher_inv_def st)
  have cand: "candidates = take (nat (min (int (length llm_tokens)) (idx + window_size)) - nat idx)
                 (drop (nat idx) llm_tokens)"
    unfolding candidates_def using idx by (intro py_slice_nonneg) (simp_all add: window_size_def)
  show ?thesis
  proof (cases "clean_text box_text \<noteq> [] \<and> candidates \<noteq> [] \<and> Max (set scores) > 80")
    case False
    then have "match_step scorer llm_tokens st bidx b = st"
      unfolding st b match_step_cases Let_def candidates_def [symmetric] scores_def [symmetric]
      by auto
    then show ?thesis using assms(1) by (auto simp: matcher_inv_def st)
  next
    case True
    then have step: "match_step scorer llm_tokens st bidx b =
        (matches @ [Anchor bidx (idx + int k) (candidates ! k) rect], idx + int k + 1)"
      unfolding st b match_step_cases Let_def candidates_def [symmetric] scores_def [symmetric]
        k_def [symmetric]
      by simp
    have klt: "k < length candidates"
      using True first_best_less [of scores] by (simp add: k_def scores_def)
    then have in_range: "nat idx + k < length llm_tokens"
      unfolding cand by simp
    have tok: "candidates ! k = llm_tokens ! (nat idx + k)"
      using klt unfolding cand by simp
    have n: "nat (idx + int k) = nat idx + k" using idx by simp
    have old: "\<forall>a \<in> set matches. anchor_lt a (Anchor bidx (idx + int k) (candidates ! k) rect)"
      using assms(1) by (auto simp: matcher_inv_def st anchor_lt_def)
    show ?thesis
      unfolding step using assms idx in_range old
      by (auto simp: matcher_inv_def st sorted_wrt_append tok n)
  qed
qed

lemma find_anchors_loop_inv:
  "matcher_inv llm_tokens bidx st \<Longrightarrow> 0 \<le> bidx \<Longrightarrow>
     matcher_inv llm_tokens (bidx + int (length bs)) (find_anchors_loop scorer llm_tokens bidx bs st)"
proof (induction bs arbitrary: bidx st)
  case Nil
  then show ?case by simp
next
  case (Cons b bs)
  have "matcher_inv llm_tokens (bidx + 1 + int (length bs))
          (find_anchors_loop scorer llm_tokens (bidx + 1) bs (match_step scorer llm_tokens st bidx b))"
    using Cons.prems by (intro Cons.IH match_step_inv) simp_all
  then show ?case by (simp add: algebra_simps)
qed

lemma find_anchors_inv:
  "matcher_inv llm_tokens (int (length structured_data))
     (find_anchors_loop scorer llm_tokens 0 structured_data ([], 0))"
  using find_anchors_loop_inv [of llm_tokens 0 "([], 0)" structured_data scorer]
  by (simp add: matcher_inv_def)

text \<open>
  C1: for every list of detection boxes and every token list, the anchors emitted by the
  matcher are strictly increasing in both indices: each anchor has a smaller
  \<^verbatim>\<open>box_idx\<close> and a smaller \<^verbatim>\<open>llm_idx\<close> than the next one. It holds for
  any scorer.
\<close>

theorem anchors_strictly_increasing:
  "successively (\<lambda>a b. box_idx a < box_idx b \<and> llm_idx a < llm_idx b)
     (find_anchors scorer structured_data llm_tokens)"
proof -
  obtain ms idx where r: "find_anchors_loop scorer llm_tokens 0 structured_data ([], 0) = (ms, idx)"
    by (cases "find_anchors_loop scorer llm_tokens 0 structured_data ([], 0)")
  have "sorted_wrt anchor_lt ms"
    using find_anchors_inv [of llm_tokens structured_data scorer] by (simp add: r matcher_inv_def)
  then have "successively anchor_lt ms" by (rule successively_if_sorted_wrt)
  then show ?thesis
    by (simp add: find_anchors_def r anchor_lt_def [abs_def])
qed

theorem anchors_strictly_increasing_witness:
  "find_anchors fuzz_ratio
      [(Rect 0 0 1 0.1, ''Helo''), (Rect 0 0.1 1 0.2, ''???''), (Rect 0 0.2 1 0.3, ''wrld'')]
      [''Hello'', ''big'', ''world!'']
     = [Anchor 0 0 ''Hello'' (Rect 0 0 1 0.1), Anchor 2 2 ''world!'' (Rect 0 0.2 1 0.3)]
   \<and> successively (\<lambda>a b. box_idx a < box_idx b \<and> llm_idx a < llm_idx b)
        (find_anchors fuzz_ratio
           [(Rect 0 0 1 0.1, ''Helo''), (Rect 0 0.1 1 0.2, ''???''), (Rect 0 0.2 1 0.3, ''wrld'')]
           [''Hello'', ''big'', ''world!''])"
proof -
  have e: "find_anchors fuzz_ratio
      [(Rect 0 0 1 0.1, ''Helo''), (Rect 0 0.1 1 0.2, ''???''), (Rect 0 0.2 1 0.3, ''wrld'')]
      [''Hello'', ''big'', ''world!'']
     = [Anchor 0 0 ''Hello'' (Rect 0 0 1 0.1), Anchor 2 2 ''world!'' (Rect 0 0.2 1 0.3)]"
    by code_simp
  show ?thesis
    using e anchors_strictly_increasing [of fuzz_ratio
      "[(Rect 0 0 1 0.1, ''Helo''), (Rect 0 0.1 1 0.2, ''???''), (Rect 0 0.2 1 0.3, ''wrld'')]"
      "[''Hello'', ''big'', ''world!'']"]
    by simp
qed

text \<open>
  C6: for a box whose cleaned text is not empty and whose candidate window is not empty,
  the matcher emits an anchor if and only if the best score over the window is strictly
  above 80; the anchor is then the first candidate with the best score, in its original
  form, and the cursor moves just past it. At exactly 80 nothing is emitted and the state
  is unchanged; at 81 an anchor is.
\<close>

theorem anchor_threshold:
  assumes "clean_text box_text \<noteq> []"
    and "py_slice llm_tokens idx (min (int (length llm_tokens)) (idx + window_size)) \<noteq> []"
  shows "match_step scorer llm_tokens (matches, idx) bidx (rect, box_text) =
     (let candidates = py_slice llm_tokens idx (min (int (length llm_tokens)) (idx + window_size));
          scores = map (\<lambda>c. scorer (clean_text box_text) (clean_text c)) candidates;
          best = Max (set scores);
          k = first_best scores
      in if best > 80
         then (matches @ [Anchor bidx (idx + int k) (candidates ! k) rect], idx + int k + 1)
         else (matches, idx))"
  using assms unfolding match_step_cases Let_def by simp

theorem anchor_threshold_witness:
  "clean_text ''abcde'' \<noteq> []
   \<and> py_slice [''abcdx''] 0 (min (int (length [''abcdx''])) (0 + window_size)) \<noteq> []
   \<and> fuzz_ratio (clean_text ''abcde'') (clean_text ''abcdx'') = 80
   \<and> match_step fuzz_ratio [''abcdx''] ([], 0) 0 (Rect 0 0 1 0.1, ''abcde'') = ([], 0)
   \<and> match_step (\<lambda>a b. 80) [''abcdx''] ([], 0) 0 (Rect 0 0 1 0.1, ''abcde'') = ([], 0)
   \<and> match_step (\<lambda>a b. 81) [''abcdx''] ([], 0) 0 (Rect 0 0 1 0.1, ''abcde'')
       = ([Anchor 0 0 ''abcdx'' (Rect 0 0 1 0.1)], 1)"
proof -
  have h1: "clean_text ''abcde'' \<noteq> []" by code_simp
  have h2: "py_slice [''abcdx''] 0 (min (int (length [''abcdx''])) (0 + window_size)) \<noteq> []"
    by code_simp
  have s: "fuzz_ratio (clean_text ''abcde'') (clean_text ''abcdx'') = 80" by code_simp
  have c: "py_slice [''abcdx''] 0 (min (int (length [''abcdx''])) (0 + window_size)) = [''abcdx'']"
    by code_simp
  note t = anchor_threshold [OF h1 h2, of _ "[]" 0 "Rect 0 0 1 0.1"]
  have a: "match_step fuzz_ratio [''abcdx''] ([], 0) 0 (Rect 0 0 1 0.1, ''abcde'') = ([], 0)"
    unfolding t c by (simp add: s first_best_def)
  have b: "match_step (\<lambda>a b. 80) [''abcdx''] ([], 0) 0 (Rect 0 0 1 0.1, ''abcde'') = ([], 0)"
    unfolding t c by (simp add: first_best_def)
  have d: "match_step (\<lambda>a b. 81) [''abcdx''] ([], 0) 0 (Rect 0 0 1 0.1, ''abcde'')
       = ([Anchor 0 0 ''abcdx'' (Rect 0 0 1 0.1)], 1)"
    unfolding t c by (simp add: first_best_def)
  show ?thesis using h1 h2 s a b d by simp
qed

section \<open>The box extractor\<close>





section \<open>Token conservation\<close>

lemma output_tokens_simps [simp]:
  "output_tokens [] = []"
  "output_tokens (xs @ ys) = output_tokens xs @ output_tokens ys"
  "output_tokens [(r, t)] = split_ws t"
  by (simp_all add: output_tokens_def)

lemma split_acc_word:
  "list_all (\<lambda>c. \<not> is_space c) w \<Longrightarrow> split_acc cur (w @ rest) = split_acc (cur @ w) rest"
  by (induction w arbitrary: cur) auto

lemma split_acc_proper:
  "list_all (\<lambda>c. \<not> is_space c) cur \<Longrightarrow> list_all proper_token (split_acc cur s)"
  by (induction s arbitrary: cur) (auto simp: proper_token_def)

lemma split_ws_proper: "list_all proper_token (split_ws s)"
  by (simp add: split_ws_def split_acc_proper)

lemma split_ws_token: "proper_token t \<Longrightarrow> split_ws t = [t]"
  using split_acc_word [of t "[]" "[]"] by (simp add: split_ws_def proper_token_def)

lemma split_ws_join: "list_all proper_token ts \<Longrightarrow> split_ws (join_sp ts) = ts"
proof (induction ts rule: join_sp.induct)
  case 1
  show ?case by (simp add: split_ws_def)
next
  case (2 x)
  then show ?case by (simp add: split_ws_token)
next
  case (3 x y ys)
  then have x: "x \<noteq> []" "list_all (\<lambda>c. \<not> is_space c) x"
    and rest: "split_ws (join_sp (y # ys)) = y # ys"
    by (simp_all add: proper_token_def)
  have sp: "is_space CHR '' ''" by (simp add: is_space_def)
  have "split_ws (join_sp (x # y # ys)) = split_acc x ('' '' @ join_sp (y # ys))"
    using split_acc_word [OF x(2), of "[]"] by (simp add: split_ws_def)
  also have "\<dots> = x # split_acc [] (join_sp (y # ys))"
    using x(1) sp by simp
  finally show ?case using rest by (simp add: split_ws_def)
qed

lemma split_acc_newline: "split_acc cur (s @ [newline]) = split_acc cur s"
  by (induction s arbitrary: cur) (auto simp: is_space_def newline_def)

lemma split_ws_wrap_hint: "split_ws (wrap_hint s) = split_ws s"
  by (simp add: wrap_hint_def split_ws_def split_acc_newline)

lemma chunk_tokens:
  "list_all proper_token chunk \<Longrightarrow>
     output_tokens (if chunk = [] then out else out @ [(r, wrap_hint (join_sp chunk))])
       = output_tokens out @ chunk"
  by (simp add: split_ws_wrap_hint split_ws_join)

lemma py_round_nonneg: "0 \<le> x \<Longrightarrow> 0 \<le> py_round x"
  by (auto simp: py_round_def Let_def)

lemma py_slice_from_nonneg: "0 \<le> i \<Longrightarrow> py_slice_from xs i = drop (nat i) xs"
  by (auto simp: py_slice_from_def norm_index_def min_def)

lemma assign_loop_positive:
  assumes "0 < total_width" and "list_all (\<lambda>w. 0 \<le> w) row_widths"
    and "list_all proper_token gap_tokens"
  shows "i + length rows = length row_widths \<Longrightarrow> n = length row_widths \<Longrightarrow> 0 \<le> token_start \<Longrightarrow>
     output_tokens (assign_loop gap_tokens total_width row_widths n i rows token_start out)
       = output_tokens out @ (if rows = [] then [] else drop (nat token_start) gap_tokens)"
proof (induction rows arbitrary: i token_start out)
  case Nil
  show ?case by simp
next
  case (Cons row rest)
  define count0 where
    "count0 = py_round (fmul (fl (real (length gap_tokens))) (fdiv (row_widths ! i) total_width))"
  define count where "count = (if count0 = 0 \<and> length gap_tokens > 0
                               \<and> token_start < int (length gap_tokens) then 1 else count0)"
  have "i < length row_widths" using Cons.prems by simp
  then have "0 \<le> row_widths ! i" using assms(2) by (simp add: list_all_length)
  then have "0 \<le> fmul (fl (real (length gap_tokens))) (fdiv (row_widths ! i) total_width)"
    using assms(1) by (intro fmul_nonneg fdiv_nonneg fl_nonneg) simp_all
  then have "0 \<le> count0" unfolding count0_def by (rule py_round_nonneg)
  then have c: "0 \<le> count" by (simp add: count_def)
  have tw: "total_width \<noteq> 0" using assms(1) by simp
  show ?case
  proof (cases "rest = []")
    case True
    then have last: "int i = int n - 1" using Cons.prems by simp
    have pr: "list_all proper_token (drop (nat token_start) gap_tokens)"
      using assms(3) by (auto simp: list_all_iff dest: in_set_dropD)
    show ?thesis
      using True last tw Cons.prems(3) chunk_tokens [OF pr]
      by (simp add: Let_def py_slice_from_nonneg)
  next
    case False
    then have nl: "int i \<noteq> int n - 1" using Cons.prems by (cases rest) auto
    define chunk where "chunk = take (nat count) (drop (nat token_start) gap_tokens)"
    have sl: "py_slice gap_tokens token_start (token_start + count) = chunk"
      using c Cons.prems(3) by (simp add: py_slice_nonneg chunk_def nat_add_distrib)
    have pr: "list_all proper_token chunk"
      using assms(3) by (auto simp: chunk_def list_all_iff dest: in_set_dropD in_set_takeD)
    have step: "assign_loop gap_tokens total_width row_widths n i (row # rest) token_start out =
       assign_loop gap_tokens total_width row_widths n (Suc i) rest (token_start + count)
         (if chunk = [] then out else out @ [(union_rect row, wrap_hint (join_sp chunk))])"
      apply (subst assign_loop.simps)
      unfolding Let_def count0_def [symmetric] count_def [symmetric] sl
      using nl tw by simp
    have "output_tokens (assign_loop gap_tokens total_width row_widths n (Suc i) rest
             (token_start + count)
             (if chunk = [] then out else out @ [(union_rect row, wrap_hint (join_sp chunk))]))
          = output_tokens (if chunk = [] then out
                           else out @ [(union_rect row, wrap_hint (join_sp chunk))])
            @ drop (nat (token_start + count)) gap_tokens"
      using Cons.prems c False by (subst Cons.IH) simp_all
    also have "\<dots> = output_tokens out @ chunk @ drop (nat token_start + nat count) gap_tokens"
      using c Cons.prems(3) by (simp add: chunk_tokens [OF pr] nat_add_distrib)
    also have "chunk @ drop (nat token_start + nat count) gap_tokens = drop (nat token_start) gap_tokens"
      unfolding chunk_def
      by (metis add.commute append_take_drop_id drop_drop)
    finally show ?thesis unfolding step by simp
  qed
qed

lemma assign_loop_zero_single:
  "list_all proper_token gap_tokens \<Longrightarrow>
     output_tokens (assign_loop gap_tokens 0 row_widths n i [row] token_start out)
       = output_tokens out @ gap_tokens"
  using chunk_tokens [of gap_tokens out "union_rect row"] by simp

lemma py_min_le: "x \<in> set xs \<Longrightarrow> py_min xs \<le> x"
proof (cases xs)
  case Nil
  then show "x \<in> set xs \<Longrightarrow> ?thesis" by simp
next
  case (Cons y ys)
  assume "x \<in> set xs"
  then have "Min (set (y # ys)) \<le> x" unfolding Cons by (intro Min_le) auto
  then show ?thesis unfolding Cons py_min.simps Min.set_eq_fold .
qed

lemma py_max_ge: "x \<in> set xs \<Longrightarrow> x \<le> py_max xs"
proof (cases xs)
  case Nil
  then show "x \<in> set xs \<Longrightarrow> ?thesis" by simp
next
  case (Cons y ys)
  assume "x \<in> set xs"
  then have "x \<le> Max (set (y # ys))" unfolding Cons by (intro Max_ge) auto
  then show ?thesis unfolding Cons py_max.simps Max.set_eq_fold .
qed

lemma row_width_nonneg:
  assumes "row \<noteq> []" and "list_all (\<lambda>b. rx0 (fst b) \<le> rx1 (fst b)) row"
  shows "0 \<le> row_width row"
proof -
  obtain b bs where row: "row = b # bs" using assms(1) by (cases row) auto
  have "py_min (map (\<lambda>b. rx0 (fst b)) row) \<le> rx0 (fst b)"
    by (rule py_min_le) (simp add: row)
  moreover have "rx1 (fst b) \<le> py_max (map (\<lambda>b. rx1 (fst b)) row)"
    by (rule py_max_ge) (simp add: row)
  moreover have "rx0 (fst b) \<le> rx1 (fst b)" using assms(2) by (simp add: row)
  ultimately show ?thesis unfolding row_width_def by (intro fsub_nonneg) linarith
qed

lemma group_loop_rows_nonempty:
  "current_row \<noteq> [] \<Longrightarrow> list_all (\<lambda>r. r \<noteq> []) done_rows \<Longrightarrow>
     list_all (\<lambda>r. r \<noteq> []) (group_loop done_rows current_row bs)"
  by (induction bs arbitrary: done_rows current_row) simp_all

lemma group_rows_nonempty: "list_all (\<lambda>r. r \<noteq> []) (group_rows gap_boxes)"
  by (cases gap_boxes) (simp_all add: group_rows_def group_loop_rows_nonempty)

lemma group_rows_concat: "concat (group_rows gap_boxes) = gap_boxes"
  by (cases gap_boxes) (simp_all add: group_rows_def group_loop_concat)

lemma group_rows_Nil_iff: "group_rows gap_boxes = [] \<longleftrightarrow> gap_boxes = []"
  by (cases gap_boxes) (simp_all add: group_rows_def group_loop_nonempty)

lemma group_rows_widths_nonneg:
  assumes "list_all (\<lambda>b. rx0 (fst b) \<le> rx1 (fst b)) gap_boxes"
  shows "list_all (\<lambda>w. 0 \<le> w) (map row_width (group_rows gap_boxes))"
proof -
  have "0 \<le> row_width row" if "row \<in> set (group_rows gap_boxes)" for row
  proof (rule row_width_nonneg)
    show "row \<noteq> []" using that group_rows_nonempty [of gap_boxes] by (auto simp: list_all_iff)
    have "set row \<subseteq> set (concat (group_rows gap_boxes))" using that by auto
    then show "list_all (\<lambda>b. rx0 (fst b) \<le> rx1 (fst b)) row"
      using assms by (auto simp: group_rows_concat list_all_iff)
  qed
  then show ?thesis by (simp add: list_all_iff)
qed

lemma fill_gap_tokens:
  assumes "list_all proper_token gap_tokens"
    and "list_all (\<lambda>b. rx0 (fst b) \<le> rx1 (fst b)) gap_boxes"
    and "gap_ok gap_tokens gap_boxes"
  shows "output_tokens (fill_gap gap_tokens gap_boxes out) = output_tokens out @ gap_tokens"
proof (cases "gap_tokens = []")
  case True
  then show ?thesis by (simp add: fill_gap_def)
next
  case False
  note toks = this
  show ?thesis
  proof (cases "gap_boxes = []")
    case True
    then show ?thesis using toks assms(1) by (simp add: fill_gap_def Let_def split_ws_join)
  next
    case False
    define rows where "rows = group_rows gap_boxes"
    define tw where "tw = total_row_width (map row_width rows)"
    have fg: "fill_gap gap_tokens gap_boxes out =
        assign_loop gap_tokens tw (map row_width rows) (length rows) 0 rows 0 out"
      using toks False by (simp add: fill_gap_def Let_def rows_def tw_def)
    have ne: "rows \<noteq> []" using False by (simp add: rows_def group_rows_Nil_iff)
    have nonneg: "list_all (\<lambda>w. 0 \<le> w) (map row_width rows)"
      unfolding rows_def using assms(2) by (rule group_rows_widths_nonneg)
    show ?thesis
    proof (cases "tw = 0")
      case True
      then have "length rows = 1" using assms(3) toks False by (simp add: gap_ok_def rows_def tw_def)
      then obtain row where "rows = [row]" by (cases rows) auto
      then show ?thesis unfolding fg True using assign_loop_zero_single [OF assms(1)] by simp
    next
      case False
      have "0 \<le> tw" unfolding tw_def using nonneg by (rule total_row_width_nonneg)
      then have pos: "0 < tw" using False by simp
      show ?thesis
        unfolding fg using ne
        by (subst assign_loop_positive [OF pos nonneg assms(1)]) simp_all
    qed
  qed
qed

lemma take_take_drop: "m \<le> n \<Longrightarrow> take m xs @ take (n - m) (drop m xs) = take n xs"
  using take_add [of m "n - m" xs] by simp

lemma list_all_py_slice: "0 \<le> i \<Longrightarrow> 0 \<le> j \<Longrightarrow> list_all P xs \<Longrightarrow> list_all P (py_slice xs i j)"
  by (auto simp: py_slice_nonneg list_all_iff dest: in_set_takeD in_set_dropD)

lemma reconstruct_loop_tokens:
  assumes proper: "list_all proper_token llm_tokens"
    and wf: "list_all (\<lambda>b. rx0 (fst b) \<le> rx1 (fst b)) structured_data"
  shows "output_tokens out = take (nat (pl + 1)) llm_tokens \<Longrightarrow> - 1 \<le> pl \<Longrightarrow> - 1 \<le> pb \<Longrightarrow>
     sorted_wrt anchor_lt as \<Longrightarrow> list_all (anchor_fits llm_tokens pb pl) as \<Longrightarrow>
     gaps_ok structured_data llm_tokens as pb pl \<Longrightarrow>
     output_tokens (reconstruct_loop structured_data llm_tokens as pb pl out)
       = take (nat ((if as = [] then pl else llm_idx (last as)) + 1)) llm_tokens"
proof (induction as arbitrary: pb pl out)
  case Nil
  then show ?case by simp
next
  case (Cons a as)
  define gap_tokens where "gap_tokens = py_slice llm_tokens (pl + 1) (llm_idx a)"
  define gap_boxes where "gap_boxes = py_slice structured_data (pb + 1) (box_idx a)"
  define filled where "filled = fill_gap gap_tokens gap_boxes out"
  define out2 where "out2 = (case a of Anchor _ _ t r \<Rightarrow> filled @ [(r, t)] | Sentinel _ _ \<Rightarrow> filled)"
  have fits: "anchor_fits llm_tokens pb pl a" using Cons.prems(5) by simp
  then have lt: "pl < llm_idx a" "pb < box_idx a" by (simp_all add: anchor_fits_def)
  have nn: "0 \<le> pl + 1" "0 \<le> llm_idx a" "0 \<le> pb + 1" "0 \<le> box_idx a"
    using lt Cons.prems(2,3) by simp_all
  have gt: "gap_tokens = take (nat (llm_idx a) - nat (pl + 1)) (drop (nat (pl + 1)) llm_tokens)"
    unfolding gap_tokens_def using nn by (intro py_slice_nonneg)
  have "gap_ok gap_tokens gap_boxes"
    using Cons.prems(6) by (simp add: gap_tokens_def gap_boxes_def)
  moreover have "list_all proper_token gap_tokens"
    unfolding gap_tokens_def using nn proper by (intro list_all_py_slice)
  moreover have "list_all (\<lambda>b. rx0 (fst b) \<le> rx1 (fst b)) gap_boxes"
    unfolding gap_boxes_def using nn wf by (intro list_all_py_slice)
  ultimately have "output_tokens filled = output_tokens out @ gap_tokens"
    unfolding filled_def by (intro fill_gap_tokens)
  also have "\<dots> = take (nat (llm_idx a)) llm_tokens"
    unfolding Cons.prems(1) gt using lt(1) nn by (intro take_take_drop) simp
  finally have filled: "output_tokens filled = take (nat (llm_idx a)) llm_tokens" .
  have out2: "output_tokens out2 = take (nat (llm_idx a + 1)) llm_tokens"
  proof (cases a)
    case (Anchor bi i t r)
    then have i: "i < int (length llm_tokens)" "t = llm_tokens ! nat i" "0 \<le> i"
      using fits nn by (simp_all add: anchor_fits_def)
    then have n: "nat i < length llm_tokens" by simp
    then have "proper_token t" using proper i(2) by (simp add: list_all_length)
    then have "output_tokens out2 = take (nat i) llm_tokens @ [llm_tokens ! nat i]"
      using filled by (simp add: out2_def Anchor split_ws_token i(2))
    also have "\<dots> = take (Suc (nat i)) llm_tokens"
      using n by (simp add: take_Suc_conv_app_nth)
    finally show ?thesis using i(3) by (simp add: Anchor nat_add_distrib)
  next
    case (Sentinel bi i)
    then have "i = int (length llm_tokens)" using fits by (simp add: anchor_fits_def)
    then show ?thesis using filled by (simp add: out2_def Sentinel nat_add_distrib)
  qed
  have step: "reconstruct_loop structured_data llm_tokens (a # as) pb pl out =
      reconstruct_loop structured_data llm_tokens as (box_idx a) (llm_idx a) out2"
    by (cases a) (simp_all add: Let_def out2_def filled_def gap_tokens_def gap_boxes_def)
  have later: "list_all (anchor_fits llm_tokens (box_idx a) (llm_idx a)) as"
    using Cons.prems(4,5) by (auto simp: list_all_iff anchor_fits_def anchor_lt_def)
  have "output_tokens (reconstruct_loop structured_data llm_tokens as (box_idx a) (llm_idx a) out2)
      = take (nat ((if as = [] then llm_idx a else llm_idx (last as)) + 1)) llm_tokens"
    using out2 nn later Cons.prems(4,6) by (intro Cons.IH) simp_all
  then show ?case unfolding step by simp
qed

lemma tokens_truthy: "split_ws (full_llm_text t) \<noteq> [] \<Longrightarrow> truthy t"
  by (cases t) (auto simp: split_ws_def)

lemma reconstruct_tokens:
  assumes wf: "list_all (\<lambda>b. rx0 (fst b) \<le> rx1 (fst b)) structured_data"
    and proper: "list_all proper_token llm_tokens"
    and ok: "gaps_ok structured_data llm_tokens
               (find_anchors scorer structured_data llm_tokens
                  @ [Sentinel (int (length structured_data)) (int (length llm_tokens))])
               (- 1) (- 1)"
  shows "output_tokens (reconstruct structured_data llm_tokens
            (find_anchors scorer structured_data llm_tokens)) = llm_tokens"
proof -
  define ms where "ms = find_anchors scorer structured_data llm_tokens"
  define s where "s = Sentinel (int (length structured_data)) (int (length llm_tokens))"
  obtain ms' idx where r: "find_anchors_loop scorer llm_tokens 0 structured_data ([], 0) = (ms', idx)"
    by (cases "find_anchors_loop scorer llm_tokens 0 structured_data ([], 0)")
  then have ms: "ms' = ms" by (simp add: ms_def find_anchors_def)
  have inv: "matcher_inv llm_tokens (int (length structured_data)) (ms, idx)"
    using find_anchors_inv [of llm_tokens structured_data scorer] by (simp add: r ms)
  have a: "is_Anchor a \<and> 0 \<le> box_idx a \<and> box_idx a < int (length structured_data)
           \<and> 0 \<le> llm_idx a \<and> llm_idx a < int (length llm_tokens)
           \<and> anchor_text a = llm_tokens ! nat (llm_idx a)" if "a \<in> set ms" for a
    using inv that by (auto simp: matcher_inv_def)
  have sorted: "sorted_wrt anchor_lt (ms @ [s])"
    using inv a by (auto simp: matcher_inv_def sorted_wrt_append anchor_lt_def s_def)
  have fits: "list_all (anchor_fits llm_tokens (- 1) (- 1)) (ms @ [s])"
  proof -
    have "anchor_fits llm_tokens (- 1) (- 1) a" if "a \<in> set ms" for a
      using a [OF that] by (cases a) (auto simp: anchor_fits_def)
    moreover have "anchor_fits llm_tokens (- 1) (- 1) s"
      by (simp add: anchor_fits_def s_def)
    ultimately show ?thesis by (simp add: list_all_iff)
  qed
  have "output_tokens (reconstruct_loop structured_data llm_tokens (ms @ [s]) (- 1) (- 1) [])
      = take (nat ((if ms @ [s] = [] then - 1 else llm_idx (last (ms @ [s]))) + 1)) llm_tokens"
    using sorted fits ok unfolding ms_def [symmetric] s_def [symmetric]
    by (intro reconstruct_loop_tokens [OF proper wf]) simp_all
  then show ?thesis
    by (simp add: reconstruct_def ms_def [symmetric] s_def [symmetric]) (simp add: s_def)
qed

text \<open>
  A run where the rounding decides the distribution: the row widths are
  0.19999999999999998 and 0.2, the first ratio rounds to just below one half, and of the
  three tokens the first row receives one, as the code gives (exact arithmetic would
  give it two).
\<close>

lemma fill_gap_rounded_counts:
  "fill_gap [''a'', ''b'', ''c'']
     [(Rect (fl 0.1) (fl 0.1) (fl 0.3) (fl 0.14), ''zzz''),
      (Rect (fl 0.2) (fl 0.5) (fl 0.4) (fl 0.54), ''qqq'')] []
   = [(Rect (fl 0.1) (fl 0.1) (fl 0.3) (fl 0.14), ''a''),
      (Rect (fl 0.2) (fl 0.5) (fl 0.4) (fl 0.54), ''b c'')]"
  by code_simp

text \<open>
  C3 (as the code has it): for every input whose content has at least one token, whose
  boxes all lie in the unit square with \<open>x0 \<le> x1\<close>, and in which no gap is degenerate
  (tokens, more than one row of boxes, total row width zero, rows and widths as the
  code's floating-point arithmetic gives them), the tokens obtained by whitespace-splitting the
  texts of the output elements, in output order, are exactly the input tokens in their
  original order: none is lost and none is duplicated. Splitting ignores the appended
  wrap newlines. It holds for any scorer.
\<close>

theorem token_conservation:
  assumes "split_ws (full_llm_text llm_text) \<noteq> []"
    and "list_all (\<lambda>b. in_unit_square (fst b) \<and> rx0 (fst b) \<le> rx1 (fst b)) structured_data"
    and "gaps_ok structured_data (split_ws (full_llm_text llm_text))
           (find_anchors scorer structured_data (split_ws (full_llm_text llm_text))
              @ [Sentinel (int (length structured_data))
                   (int (length (split_ws (full_llm_text llm_text))))])
           (- 1) (- 1)"
  shows "output_tokens (align_text scorer structured_data llm_text)
           = split_ws (full_llm_text llm_text)"
proof -
  define toks where "toks = split_ws (full_llm_text llm_text)"
  have r: "output_tokens (reconstruct structured_data toks (find_anchors scorer structured_data toks))
             = toks"
    using assms(2,3) unfolding toks_def
    by (intro reconstruct_tokens split_ws_proper) (simp_all add: list_all_iff)
  then have "reconstruct structured_data toks (find_anchors scorer structured_data toks) \<noteq> []"
    using assms(1) unfolding toks_def by auto
  then show ?thesis
    using r assms(1) tokens_truthy [OF assms(1)]
    by (simp add: align_text_def Let_def toks_def)
qed

theorem token_conservation_witness:
  "split_ws (full_llm_text (Str ''Hello big wide world! bye'')) \<noteq> []
   \<and> list_all (\<lambda>b. in_unit_square (fst b) \<and> rx0 (fst b) \<le> rx1 (fst b))
        [(Rect (fl 0.1) (fl 0.1) (fl 0.5) (fl 0.14), ''Helo''),
         (Rect (fl 0.1) (fl 0.2) (fl 0.4) (fl 0.24), ''qqq''),
         (Rect (fl 0.5) (fl 0.3) (fl 0.9) (fl 0.34), ''zzz''),
         (Rect (fl 0.1) (fl 0.4) (fl 0.3) (fl 0.44), ''wrld'')]
   \<and> align_text fuzz_ratio
        [(Rect (fl 0.1) (fl 0.1) (fl 0.5) (fl 0.14), ''Helo''),
         (Rect (fl 0.1) (fl 0.2) (fl 0.4) (fl 0.24), ''qqq''),
         (Rect (fl 0.5) (fl 0.3) (fl 0.9) (fl 0.34), ''zzz''),
         (Rect (fl 0.1) (fl 0.4) (fl 0.3) (fl 0.44), ''wrld'')]
        (Str ''Hello big wide world! bye'')
       = [(Rect (fl 0.1) (fl 0.1) (fl 0.5) (fl 0.14), ''Hello''),
          (Rect (fl 0.1) (fl 0.2) (fl 0.4) (fl 0.24), ''big''),
          (Rect (fl 0.5) (fl 0.3) (fl 0.9) (fl 0.34), ''wide''),
          (Rect (fl 0.1) (fl 0.4) (fl 0.3) (fl 0.44), ''world!''),
          (Rect (fl 0.05) (fl 0.448) (fl 0.95) (fl 0.488), ''bye'')]
   \<and> output_tokens (align_text fuzz_ratio
        [(Rect (fl 0.1) (fl 0.1) (fl 0.5) (fl 0.14), ''Helo''),
         (Rect (fl 0.1) (fl 0.2) (fl 0.4) (fl 0.24), ''qqq''),
         (Rect (fl 0.5) (fl 0.3) (fl 0.9) (fl 0.34), ''zzz''),
         (Rect (fl 0.1) (fl 0.4) (fl 0.3) (fl 0.44), ''wrld'')]
        (Str ''Hello big wide world! bye''))
       = [''Hello'', ''big'', ''wide'', ''world!'', ''bye'']"
proof -
  let ?sd = "[(Rect (fl 0.1) (fl 0.1) (fl 0.5) (fl 0.14), ''Helo''),
         (Rect (fl 0.1) (fl 0.2) (fl 0.4) (fl 0.24), ''qqq''),
         (Rect (fl 0.5) (fl 0.3) (fl 0.9) (fl 0.34), ''zzz''),
         (Rect (fl 0.1) (fl 0.4) (fl 0.3) (fl 0.44), ''wrld'')]"
  let ?t = "Str ''Hello big wide world! bye''"
  have h1: "split_ws (full_llm_text ?t) \<noteq> []" by code_simp
  have h2: "list_all (\<lambda>b. in_unit_square (fst b) \<and> rx0 (fst b) \<le> rx1 (fst b)) ?sd"
    by code_simp
  have h3: "gaps_ok ?sd (split_ws (full_llm_text ?t))
           (find_anchors fuzz_ratio ?sd (split_ws (full_llm_text ?t))
              @ [Sentinel (int (length ?sd)) (int (length (split_ws (full_llm_text ?t))))])
           (- 1) (- 1)"
    by code_simp
  have e: "align_text fuzz_ratio ?sd ?t
       = [(Rect (fl 0.1) (fl 0.1) (fl 0.5) (fl 0.14), ''Hello''),
          (Rect (fl 0.1) (fl 0.2) (fl 0.4) (fl 0.24), ''big''),
          (Rect (fl 0.5) (fl 0.3) (fl 0.9) (fl 0.34), ''wide''),
          (Rect (fl 0.1) (fl 0.4) (fl 0.3) (fl 0.44), ''world!''),
          (Rect (fl 0.05) (fl 0.448) (fl 0.95) (fl 0.488), ''bye'')]"
    by code_simp
  have s: "split_ws (full_llm_text ?t) = [''Hello'', ''big'', ''wide'', ''world!'', ''bye'']"
    by code_simp
  show ?thesis
    using token_conservation [OF h1 h2 h3] h1 h2 e s by simp
qed

text \<open>
  The claim for every input fails. With empty content the detection boxes are returned
  with their own recognised text, which is not the (empty) token sequence. In a gap of
  two rows of zero total width every row receives all the gap tokens; the third input is
  one where only the rounding of the line test puts the two boxes in different rows.
\<close>

theorem token_conservation_counterexample:
  "split_ws (full_llm_text (Str [])) = []
   \<and> output_tokens (align_text fuzz_ratio
         [(Rect (fl 0.1) (fl 0.1) (fl 0.5) (fl 0.14), ''Helo'')] (Str []))
       = [''Helo'']
   \<and> split_ws (full_llm_text (Str ''hello world'')) = [''hello'', ''world'']
   \<and> output_tokens (align_text fuzz_ratio
         [(Rect (fl 0.5) (fl 0.1) (fl 0.5) (fl 0.2), ''zzz''),
          (Rect (fl 0.5) (fl 0.5) (fl 0.5) (fl 0.6), ''qqq'')] (Str ''hello world''))
       = [''hello'', ''world'', ''hello'', ''world'']
   \<and> output_tokens (align_text fuzz_ratio
         [(Rect (fl 0.25) 0 (fl 0.25) (fl 0.5), ''zzz''),
          (Rect (fl 0.75) (fl 0.24999999999999997) (fl 0.75) 1, ''qqq'')] (Str ''hello world''))
       = [''hello'', ''world'', ''hello'', ''world'']"
  by code_simp

section \<open>The full-page fallback\<close>

lemma assign_loop_mono:
  "out \<noteq> [] \<Longrightarrow> assign_loop gap_tokens total_width row_widths n i rows token_start out \<noteq> []"
proof (induction rows arbitrary: i token_start out)
  case Nil
  then show ?case by simp
next
  case (Cons row rest)
  obtain chunk ts where p:
    "(if total_width = 0 then (gap_tokens, token_start)
      else
        let ratio = fdiv (row_widths ! i) total_width;
            count0 = py_round (fmul (fl (real (length gap_tokens))) ratio);
            count = (if count0 = 0 \<and> length gap_tokens > 0
                        \<and> token_start < int (length gap_tokens)
                     then 1 else count0)
        in if int i = int n - 1 then (py_slice_from gap_tokens token_start, token_start)
           else (py_slice gap_tokens token_start (token_start + count),
                 token_start + count)) = (chunk, ts)"
    by (rule prod.exhaust)
  have "assign_loop gap_tokens total_width row_widths n i (row # rest) token_start out =
      assign_loop gap_tokens total_width row_widths n (Suc i) rest ts
        (if chunk = [] then out else out @ [(union_rect row, wrap_hint (join_sp chunk))])"
    using p by (subst assign_loop.simps) (simp add: Let_def split: if_splits)
  then show ?case using Cons.prems by (simp add: Cons.IH)
qed

lemma assign_loop_emits:
  "gap_tokens \<noteq> [] \<Longrightarrow> rows \<noteq> [] \<Longrightarrow> i + length rows = n \<Longrightarrow>
     norm_index token_start (length gap_tokens) < length gap_tokens \<Longrightarrow>
     assign_loop gap_tokens total_width row_widths n i rows token_start out \<noteq> []"
proof (induction rows arbitrary: i token_start out)
  case Nil
  then show ?case by simp
next
  case (Cons row rest)
  define count0 where
    "count0 = py_round (fmul (fl (real (length gap_tokens))) (fdiv (row_widths ! i) total_width))"
  define count where "count = (if count0 = 0 \<and> length gap_tokens > 0
                               \<and> token_start < int (length gap_tokens) then 1 else count0)"
  show ?case
  proof (cases "total_width = 0")
    case True
    then show ?thesis using Cons.prems(1) by (simp add: assign_loop_mono)
  next
    case False
    note tw = this
    show ?thesis
    proof (cases "rest = []")
      case True
      then have last: "int i = int n - 1" using Cons.prems by simp
      have "py_slice_from gap_tokens token_start \<noteq> []"
        using Cons.prems(4) by (simp add: py_slice_from_def)
      then show ?thesis using True last tw by (simp add: Let_def)
    next
      case False
      then have nl: "int i \<noteq> int n - 1" using Cons.prems by (cases rest) auto
      define chunk where "chunk = py_slice gap_tokens token_start (token_start + count)"
      have step: "assign_loop gap_tokens total_width row_widths n i (row # rest) token_start out =
         assign_loop gap_tokens total_width row_widths n (Suc i) rest (token_start + count)
           (if chunk = [] then out else out @ [(union_rect row, wrap_hint (join_sp chunk))])"
        apply (subst assign_loop.simps)
        unfolding Let_def count0_def [symmetric] count_def [symmetric] chunk_def [symmetric]
        using nl tw by simp
      show ?thesis
      proof (cases "chunk = []")
        case True
        then have "norm_index (token_start + count) (length gap_tokens)
                     \<le> norm_index token_start (length gap_tokens)"
          using Cons.prems(4) by (simp add: chunk_def py_slice_def Let_def)
        then have "norm_index (token_start + count) (length gap_tokens) < length gap_tokens"
          using Cons.prems(4) by simp
        then show ?thesis unfolding step using Cons.prems False
          by (intro Cons.IH) simp_all
      next
        case False
        then show ?thesis unfolding step by (simp add: assign_loop_mono)
      qed
    qed
  qed
qed

lemma fill_gap_mono: "out \<noteq> [] \<Longrightarrow> fill_gap gap_tokens gap_boxes out \<noteq> []"
  by (simp add: fill_gap_def Let_def assign_loop_mono)

lemma fill_gap_emits: "gap_tokens \<noteq> [] \<Longrightarrow> fill_gap gap_tokens gap_boxes out \<noteq> []"
proof (cases "gap_boxes = []")
  case True
  then show "gap_tokens \<noteq> [] \<Longrightarrow> ?thesis" by (simp add: fill_gap_def Let_def)
next
  case False
  assume toks: "gap_tokens \<noteq> []"
  have "assign_loop gap_tokens (total_row_width (map row_width (group_rows gap_boxes)))
          (map row_width (group_rows gap_boxes)) (length (group_rows gap_boxes)) 0
          (group_rows gap_boxes) 0 out \<noteq> []"
    using toks False by (intro assign_loop_emits) (simp_all add: group_rows_Nil_iff norm_index_def)
  then show ?thesis using toks False by (simp add: fill_gap_def Let_def)
qed

lemma reconstruct_loop_mono:
  "out \<noteq> [] \<Longrightarrow> reconstruct_loop structured_data llm_tokens as pb pl out \<noteq> []"
proof (induction as arbitrary: pb pl out)
  case Nil
  then show ?case by simp
next
  case (Cons a as)
  show ?case
    by (cases a) (simp_all add: Let_def Cons.IH fill_gap_mono Cons.prems)
qed

lemma reconstruct_emits:
  assumes "llm_tokens \<noteq> []"
  shows "reconstruct structured_data llm_tokens (find_anchors scorer structured_data llm_tokens) \<noteq> []"
proof (cases "find_anchors scorer structured_data llm_tokens")
  case Nil
  have "py_slice llm_tokens 0 (int (length llm_tokens)) = llm_tokens"
    by (simp add: py_slice_nonneg)
  then show ?thesis using assms by (simp add: reconstruct_def Nil Let_def fill_gap_emits)
next
  case (Cons a as)
  obtain ms idx where r: "find_anchors_loop scorer llm_tokens 0 structured_data ([], 0) = (ms, idx)"
    by (cases "find_anchors_loop scorer llm_tokens 0 structured_data ([], 0)")
  then have "ms = a # as" using Cons by (simp add: find_anchors_def)
  then have "is_Anchor a"
    using find_anchors_inv [of llm_tokens structured_data scorer] by (simp add: r matcher_inv_def)
  then obtain bi i t rc where a: "a = Anchor bi i t rc" by (cases a) auto
  show ?thesis
    by (simp add: reconstruct_def Cons a Let_def reconstruct_loop_mono)
qed

lemma fallback_unreachable:
  "split_ws (full_llm_text llm_text) \<noteq> [] \<Longrightarrow>
     align_text scorer structured_data llm_text =
       reconstruct structured_data (split_ws (full_llm_text llm_text))
         (find_anchors scorer structured_data (split_ws (full_llm_text llm_text)))"
  using reconstruct_emits [of "split_ws (full_llm_text llm_text)" structured_data scorer]
  by (simp add: align_text_def Let_def tokens_truthy)

text \<open>
  C2: the claim says that with a non-empty box list, token-bearing content and zero
  accepted anchors the result is the single element \<open>[0,0,1,1]\<close> with the content
  string and a newline. On the input below no anchor is accepted, and the code returns
  the gap reconstruction instead: the one box with all the tokens. By
  \<open>fallback_unreachable\<close> the fallback branch is never taken once the content has a
  token, since the reconstruction is never empty then.
\<close>

theorem zero_anchors_no_fallback:
  "find_anchors fuzz_ratio [(Rect 0.1 0.1 0.5 0.14, ''zzz'')] (split_ws ''hello world'') = []
   \<and> align_text fuzz_ratio [(Rect 0.1 0.1 0.5 0.14, ''zzz'')] (Str ''hello world'')
       = [(Rect 0.1 0.1 0.5 0.14, ''hello world'')]
   \<and> align_text fuzz_ratio [(Rect 0.1 0.1 0.5 0.14, ''zzz'')] (Str ''hello world'')
       \<noteq> [(Rect 0 0 1 1, ''hello world'' @ [newline])]
   \<and> align_text fuzz_ratio [(Rect (fl 0.1) (fl 0.1) (fl 0.5) (fl 0.14), ''zzz'')]
         (Str ''hello world'')
       = [(Rect (fl 0.1) (fl 0.1) (fl 0.5) (fl 0.14), ''hello world'')]"
  by code_simp

section \<open>Gaps of zero total row width\<close>

lemma assign_loop_zero_width:
  "gap_tokens \<noteq> [] \<Longrightarrow>
     assign_loop gap_tokens 0 row_widths n i rows token_start out =
       out @ map (\<lambda>row. (union_rect row, wrap_hint (join_sp gap_tokens))) rows"
  by (induction rows arbitrary: i out) simp_all

lemma fill_gap_zero_width:
  "gap_tokens \<noteq> [] \<Longrightarrow> gap_boxes \<noteq> [] \<Longrightarrow>
   total_row_width (map row_width (group_rows gap_boxes)) = 0 \<Longrightarrow>
     fill_gap gap_tokens gap_boxes out =
       out @ map (\<lambda>row. (union_rect row, wrap_hint (join_sp gap_tokens))) (group_rows gap_boxes)"
  by (simp add: fill_gap_def Let_def assign_loop_zero_width)

text \<open>
  C5: the claim says that a gap whose rows have zero total width emits exactly one
  element carrying all the gap tokens. The code divides by nothing there, but it hands
  all the gap tokens to every row (\<open>fill_gap_zero_width\<close>): on the input below, two
  boxes of zero width on two lines, two elements are emitted, each with all the tokens.
\<close>

theorem zero_width_gap_repeats_tokens:
  "sum_list (map row_width (group_rows
       [(Rect 0.5 0.1 0.5 0.2, ''zzz''), (Rect 0.5 0.5 0.5 0.6, ''qqq'')])) = 0
   \<and> fill_gap [''hello'', ''world'']
        [(Rect 0.5 0.1 0.5 0.2, ''zzz''), (Rect 0.5 0.5 0.5 0.6, ''qqq'')] []
       = [(Rect 0.5 0.1 0.5 0.2, ''hello world''), (Rect 0.5 0.5 0.5 0.6, ''hello world'')]
   \<and> align_text fuzz_ratio
        [(Rect 0.5 0.1 0.5 0.2, ''zzz''), (Rect 0.5 0.5 0.5 0.6, ''qqq'')] (Str ''hello world'')
       = [(Rect 0.5 0.1 0.5 0.2, ''hello world''), (Rect 0.5 0.5 0.5 0.6, ''hello world'')]
   \<and> total_row_width (map row_width (group_rows
       [(Rect (fl 0.5) (fl 0.1) (fl 0.5) (fl 0.2), ''zzz''),
        (Rect (fl 0.5) (fl 0.5) (fl 0.5) (fl 0.6), ''qqq'')])) = 0
   \<and> align_text fuzz_ratio
        [(Rect (fl 0.5) (fl 0.1) (fl 0.5) (fl 0.2), ''zzz''),
         (Rect (fl 0.5) (fl 0.5) (fl 0.5) (fl 0.6), ''qqq'')] (Str ''hello world'')
       = [(Rect (fl 0.5) (fl 0.1) (fl 0.5) (fl 0.2), ''hello world''),
          (Rect (fl 0.5) (fl 0.5) (fl 0.5) (fl 0.6), ''hello world'')]"
  by code_simp

end
